theory Spec2Isabelle
  imports
    Main
    "HOL-Library.Word"
    "HOL-Library.List_Lexorder"
    "HOL-Library.Product_Lexorder"
    "HOL-Library.Multiset"
begin

unbundle bit_operations_syntax

section \<open>Go values used by the cursor\<close>

text \<open>
  A Go \<open>[]byte\<close> is either \<open>nil\<close> or a (possibly empty) sequence of bytes; the
  source tests \<open>x != nil\<close> in many places, so the difference is kept: \<open>None\<close> is the
  nil slice. A slice's capacity matters in one place only, the slice expression, and is
  made explicit there.
\<close>

type_synonym byte = "8 word"
type_synonym bytes = "byte list option"

datatype error = Err string

datatype panic = Panic string | SliceBoundsOutOfRange

definition bytes_of :: "bytes \<Rightarrow> byte list" where
  "bytes_of b = (case b of None \<Rightarrow> [] | Some xs \<Rightarrow> xs)"

text \<open>\<open>len(b)\<close>: a Go \<open>int\<close>; nil has length 0.\<close>

definition len :: "bytes \<Rightarrow> int" where
  "len b = int (length (bytes_of b))"

text \<open>\<open>bytes.Equal\<close>: a nil argument is equivalent to an empty slice.\<close>

definition bytes_Equal :: "bytes \<Rightarrow> bytes \<Rightarrow> bool" where
  "bytes_Equal a b = (bytes_of a = bytes_of b)"

text \<open>\<open>bytes.Compare\<close>: lexicographic on unsigned bytes; a nil argument is equivalent
  to an empty slice. The result is -1, 0 or +1.\<close>

definition bytes_Compare :: "bytes \<Rightarrow> bytes \<Rightarrow> int" where
  "bytes_Compare a b =
     (if bytes_of a < bytes_of b then - 1 else if bytes_of a = bytes_of b then 0 else 1)"

text \<open>The slice expression \<open>b[:n]\<close> is bounded by the capacity of \<open>b\<close>, not by its
  length: beyond the length it yields what the backing array holds there. \<open>room\<close> is
  that part of the backing array, the \<open>cap(b) - len(b)\<close> bytes after the slice's last
  byte; a nil slice has capacity 0. The expression panics when \<open>n\<close> is negative or
  beyond the capacity; slicing nil (with \<open>n = 0\<close>) gives nil.\<close>

definition cap_of :: "bytes \<Rightarrow> byte list \<Rightarrow> int" where
  "cap_of b room = (case b of None \<Rightarrow> 0 | Some xs \<Rightarrow> int (length xs + length room))"

definition slice_to :: "bytes \<Rightarrow> byte list \<Rightarrow> int \<Rightarrow> panic + bytes" where
  "slice_to b room n =
     (if n < 0 \<or> cap_of b room < n then Inl SliceBoundsOutOfRange
      else case b of None \<Rightarrow> Inr None | Some xs \<Rightarrow> Inr (Some (take (nat n) (xs @ room))))"

text \<open>\<open>append(a, b...)\<close>: with nothing to append the first slice is returned as it is.\<close>

definition append_bytes :: "bytes \<Rightarrow> bytes \<Rightarrow> bytes" where
  "append_bytes a b = (if bytes_of b = [] then a else Some (bytes_of a @ bytes_of b))"

subsection \<open>Step kinds\<close>

text \<open>\<open>type NextType int\<close> with \<open>Normal, Dup, NoDup = iota\<close>: any other integer is a
  value of the type too, which is what the \<open>default\<close> arms of the source catch.\<close>

type_synonym NextType = int

definition Normal :: NextType where "Normal = 0"
definition Dup :: NextType where "Dup = 1"
definition NoDup :: NextType where "NoDup = 2"

section \<open>Collaborators\<close>

subsection \<open>Table registry\<close>

text \<open>
  Modelled from the spec: the registry \<open>kv.ChaindataTablesCfg\<close> and the type of its items
  are declared outside this file. The spec gives an item the fields dup-sort, auto-dupsort,
  \<open>dup_from_len\<close> and \<open>dup_to_len\<close>; the source reads dup-sort as the bit
  \<open>kv.DupSort\<close> of \<open>Flags\<close>. The registry itself is a parameter \<open>T\<close> of every
  operation below; a table it does not hold reads as the zero item.
\<close>

record TableCfgItem =
  Flags :: "64 word"
  AutoDupSortKeysConversion :: bool
  DupFromLen :: int
  DupToLen :: int

type_synonym TableCfg = "string \<Rightarrow> TableCfgItem option"

definition DupSort :: "64 word" where
  "DupSort = 0x04"

definition zeroCfg :: TableCfgItem where
  "zeroCfg = \<lparr>Flags = 0, AutoDupSortKeysConversion = False, DupFromLen = 0, DupToLen = 0\<rparr>"

text \<open>\<open>config, ok := kv.ChaindataTablesCfg[table]\<close>\<close>

definition lookupCfg :: "TableCfg \<Rightarrow> string \<Rightarrow> TableCfgItem \<times> bool" where
  "lookupCfg T tbl = (case T tbl of None \<Rightarrow> (zeroCfg, False) | Some c \<Rightarrow> (c, True))"

subsection \<open>Mutation context\<close>

text \<open>
  Modelled from the spec: \<open>MemoryMutation\<close> with \<open>isTableCleared\<close> and
  \<open>isEntryDeleted\<close> lives outside this file. The spec gives it a cleared-table set and,
  per table, a tombstone set of keys, with the two queries below.
\<close>

record MemoryMutation =
  clearedTables :: "string set"
  deletedEntries :: "string \<Rightarrow> byte list set"

definition isTableCleared :: "MemoryMutation \<Rightarrow> string \<Rightarrow> bool" where
  "isTableCleared mu tbl = (tbl \<in> clearedTables mu)"

definition isEntryDeleted :: "MemoryMutation \<Rightarrow> string \<Rightarrow> bytes \<Rightarrow> bool" where
  "isEntryDeleted mu tbl k = (bytes_of k \<in> deletedEntries mu tbl)"

subsection \<open>Underlying cursors\<close>

text \<open>
  Modelled from the spec: the base cursor (\<open>kv.CursorDupSort\<close>) and the overlay cursor
  (\<open>kv.RwCursorDupSort\<close>) are interfaces implemented outside this file. The spec
  describes each as an ordered scan over a table. Here a cursor is the list of the
  table's entries, in the table's order, with a position: \<open>None\<close> before the first
  positioning call, \<open>Some i\<close> on entry \<open>i\<close>, and past the last entry when \<open>i\<close> is not
  below the length. A cursor whose transaction is unusable carries a \<open>failure\<close>, which
  every call reports. As in the key-value store behind the interface, \<open>Next\<close> and
  \<open>NextNoDup\<close> on a cursor without position go to the first entry, a step past the end
  returns nil, \<open>NextDup\<close> with no further duplicate returns nil and stays, and an exact
  seek that finds nothing returns nil and stays. The slices a cursor returns have no
  capacity beyond their length.
\<close>

type_synonym entry = "byte list \<times> byte list"

record kvCursor =
  entries :: "entry list"
  pos :: "nat option"
  failure :: "error option"

type_synonym kvResult = "(bytes \<times> bytes \<times> error option) \<times> kvCursor"

definition entry_at :: "kvCursor \<Rightarrow> nat \<Rightarrow> bytes \<times> bytes" where
  "entry_at c i =
     (if i < length (entries c) then (Some (fst (entries c ! i)), Some (snd (entries c ! i)))
      else (None, None))"

definition goto :: "kvCursor \<Rightarrow> nat \<Rightarrow> kvResult" where
  "goto c i = ((fst (entry_at c i), snd (entry_at c i), None), c\<lparr>pos := Some i\<rparr>)"

definition nothing :: "kvCursor \<Rightarrow> kvResult" where
  "nothing c = ((None, None, None), c)"

definition failed :: "kvCursor \<Rightarrow> kvResult" where
  "failed c = ((None, None, failure c), c)"

definition c_First :: "kvCursor \<Rightarrow> kvResult" where
  "c_First c = (if failure c \<noteq> None then failed c else goto c 0)"

definition c_Last :: "kvCursor \<Rightarrow> kvResult" where
  "c_Last c = (if failure c \<noteq> None then failed c else goto c (length (entries c) - 1))"

definition c_Current :: "kvCursor \<Rightarrow> kvResult" where
  "c_Current c =
     (if failure c \<noteq> None then failed c
      else case pos c of None \<Rightarrow> nothing c
           | Some i \<Rightarrow> ((fst (entry_at c i), snd (entry_at c i), None), c))"

definition c_Next :: "kvCursor \<Rightarrow> kvResult" where
  "c_Next c =
     (if failure c \<noteq> None then failed c
      else case pos c of None \<Rightarrow> goto c 0 | Some i \<Rightarrow> goto c (Suc i))"

definition c_NextDup :: "kvCursor \<Rightarrow> kvResult" where
  "c_NextDup c =
     (if failure c \<noteq> None then failed c
      else case pos c of None \<Rightarrow> nothing c
           | Some i \<Rightarrow>
               if Suc i < length (entries c) \<and> fst (entries c ! Suc i) = fst (entries c ! i)
               then goto c (Suc i) else nothing c)"

definition c_NextNoDup :: "kvCursor \<Rightarrow> kvResult" where
  "c_NextNoDup c =
     (if failure c \<noteq> None then failed c
      else case pos c of None \<Rightarrow> goto c 0
           | Some i \<Rightarrow>
               if i < length (entries c)
               then goto c (Suc i +
                      length (takeWhile (\<lambda>e. fst e = fst (entries c ! i)) (drop (Suc i) (entries c))))
               else goto c (Suc i))"

text \<open>\<open>Seek(k)\<close>: the first entry whose key is not below \<open>k\<close>.\<close>

definition c_Seek :: "kvCursor \<Rightarrow> bytes \<Rightarrow> kvResult" where
  "c_Seek c k =
     (if failure c \<noteq> None then failed c
      else goto c (length (takeWhile (\<lambda>e. fst e < bytes_of k) (entries c))))"

text \<open>\<open>SeekExact(k)\<close>: the first entry whose key is \<open>k\<close>.\<close>

definition c_SeekExact :: "kvCursor \<Rightarrow> bytes \<Rightarrow> kvResult" where
  "c_SeekExact c k =
     (if failure c \<noteq> None then failed c
      else let i = length (takeWhile (\<lambda>e. fst e < bytes_of k) (entries c))
           in if i < length (entries c) \<and> fst (entries c ! i) = bytes_of k then goto c i
              else nothing c)"

text \<open>\<open>SeekBothRange(k, v)\<close>: the value of the first entry with key \<open>k\<close> whose value is
  not below \<open>v\<close>.\<close>

definition c_SeekBothRange :: "kvCursor \<Rightarrow> bytes \<Rightarrow> bytes \<Rightarrow> (bytes \<times> error option) \<times> kvCursor" where
  "c_SeekBothRange c k v =
     (if failure c \<noteq> None then ((None, failure c), c)
      else let i = length (takeWhile (\<lambda>e. e < (bytes_of k, bytes_of v)) (entries c))
           in if i < length (entries c) \<and> fst (entries c ! i) = bytes_of k
              then ((Some (snd (entries c ! i)), None), c\<lparr>pos := Some i\<rparr>)
              else ((None, None), c))"

section \<open>The merge cursor\<close>

record cursorEntry =
  key :: bytes
  value' :: bytes

record memoryMutationCursor =
  cursor :: kvCursor
  memCursor :: kvCursor
  isPrevFromDb :: bool
  currentDbEntry :: cursorEntry
  currentMemEntry :: cursorEntry
  mutation :: MemoryMutation
  table :: string

text \<open>What a cursor method returns: a panic, or the method's Go results with the cursor
  as the call left it.\<close>

type_synonym kvReturn = "panic + ((bytes \<times> bytes \<times> error option) \<times> memoryMutationCursor)"

subsection \<open>convertAutoDupsort\<close>

text \<open>\<open>room\<close> is what the backing array of \<open>value\<close> holds beyond the value's
  length, which \<open>value[:config.DupFromLen-config.DupToLen]\<close> reaches when the value is
  shorter than the prefix.\<close>

definition convertAutoDupsort ::
  "TableCfg \<Rightarrow> memoryMutationCursor \<Rightarrow> bytes \<Rightarrow> bytes \<Rightarrow> byte list \<Rightarrow> panic + bytes" where
  "convertAutoDupsort T m k v room =
     (let (config, ok) = lookupCfg T (table m)
      in if \<not> ok \<or> \<not> AutoDupSortKeysConversion config then Inr k
         else if len k \<noteq> DupToLen config then Inr k
         else case slice_to v room (DupFromLen config - DupToLen config) of
                Inl p \<Rightarrow> Inl p
              | Inr pre \<Rightarrow> Inr (append_bytes k pre))"

subsection \<open>getNextOnDb\<close>

text \<open>The \<open>switch t\<close> block of \<open>getNextOnDb\<close>, which the source writes out twice: the
  base cursor's step for the kind \<open>t\<close>. In the \<open>default\<close> arm the named results
  \<open>key\<close> and \<open>value\<close> keep what they held (\<open>k\<close>, \<open>v\<close>).\<close>

definition stepOnDb :: "NextType \<Rightarrow> bytes \<Rightarrow> bytes \<Rightarrow> kvCursor \<Rightarrow> kvResult" where
  "stepOnDb t k v c =
     (if t = Normal then c_Next c
      else if t = Dup then c_NextDup c
      else if t = NoDup then c_NextNoDup c
      else ((k, v, Some (Err ''invalid next type'')), c))"

text \<open>Entries of the table strictly after the cursor's position.\<close>

definition remaining :: "kvCursor \<Rightarrow> nat" where
  "remaining c = (case pos c of None \<Rightarrow> Suc (length (entries c)) | Some i \<Rightarrow> length (entries c) - i)"

lemma stepOnDb_remaining:
  assumes "stepOnDb t k v c = ((k', v', None), c')"
  shows "remaining c' \<le> remaining c \<and> (k' \<noteq> None \<longrightarrow> remaining c' < remaining c)"
  using assms
  by (auto simp: stepOnDb_def c_Next_def c_NextDup_def c_NextNoDup_def goto_def nothing_def
      failed_def entry_at_def remaining_def split: if_splits option.splits)

text \<open>The \<open>for\<close> loop of \<open>getNextOnDb\<close>, entered with the results of the first step.
  Key and value come from the base cursor, so the value has no room.\<close>

function getNextOnDb_loop ::
  "TableCfg \<Rightarrow> memoryMutationCursor \<Rightarrow> NextType \<Rightarrow> bytes \<Rightarrow> bytes \<Rightarrow> kvReturn" where
  "getNextOnDb_loop T m t k v =
     (if k \<noteq> None \<and> v \<noteq> None then
        (case convertAutoDupsort T m k v [] of
           Inl p \<Rightarrow> Inl p
         | Inr ek \<Rightarrow>
             if isEntryDeleted (mutation m) (table m) ek then
               (case stepOnDb t k v (cursor m) of
                  ((k', v', err), c') \<Rightarrow>
                    if err \<noteq> None then Inr ((k', v', err), m\<lparr>cursor := c'\<rparr>)
                    else getNextOnDb_loop T (m\<lparr>cursor := c'\<rparr>) t k' v')
             else Inr ((k, v, None), m))
      else Inr ((k, v, None), m))"
  by pat_completeness auto
termination
  apply (relation "measure (\<lambda>(T, m, t, k, v). 2 * remaining (cursor m) + (if k = None then 0 else 1))")
   apply simp
  apply (auto dest!: sym [THEN stepOnDb_remaining])
  done

declare getNextOnDb_loop.simps [simp del]

definition getNextOnDb :: "TableCfg \<Rightarrow> memoryMutationCursor \<Rightarrow> NextType \<Rightarrow> kvReturn" where
  "getNextOnDb T m t =
     (case stepOnDb t None None (cursor m) of
        ((k, v, err), c') \<Rightarrow>
          if err \<noteq> None then Inr ((k, v, err), m\<lparr>cursor := c'\<rparr>)
          else getNextOnDb_loop T (m\<lparr>cursor := c'\<rparr>) t k v)"

subsection \<open>Current\<close>

definition Current :: "memoryMutationCursor \<Rightarrow> kvReturn" where
  "Current m =
     (if isPrevFromDb m then
        (case c_Current (cursor m) of (r, c') \<Rightarrow> Inr (r, m\<lparr>cursor := c'\<rparr>))
      else
        (case c_Current (memCursor m) of (r, c') \<Rightarrow> Inr (r, m\<lparr>memCursor := c'\<rparr>)))"

subsection \<open>skipIntersection\<close>

text \<open>The two slice expressions are reached only with \<open>dupsortOffset\<close> within the
  lengths of the values, where the room of a value plays no part (\<open>slice_to_room\<close>
  below); they are written with no room.\<close>

definition skipIntersection ::
  "TableCfg \<Rightarrow> memoryMutationCursor \<Rightarrow> bytes \<Rightarrow> bytes \<Rightarrow> bytes \<Rightarrow> bytes \<Rightarrow> NextType \<Rightarrow> kvReturn" where
  "skipIntersection T m memKey memValue dbKey dbValue t =
     (let (config, ok) = lookupCfg T (table m);
          dupsortOffset =
            (if ok \<and> AutoDupSortKeysConversion config then DupFromLen config - DupToLen config
             else 0)
      in if bytes_Equal memKey dbKey then
           if Flags config AND DupSort = 0 then getNextOnDb T m t
           else if bytes_Equal memValue dbValue then getNextOnDb T m t
           else if dupsortOffset \<noteq> 0 \<and> len memValue \<ge> dupsortOffset \<and> len dbValue \<ge> dupsortOffset
           then
             (case slice_to memValue [] dupsortOffset of
                Inl p \<Rightarrow> Inl p
              | Inr memPrefix \<Rightarrow>
                  (case slice_to dbValue [] dupsortOffset of
                     Inl p \<Rightarrow> Inl p
                   | Inr dbPrefix \<Rightarrow>
                       if bytes_Equal memPrefix dbPrefix then getNextOnDb T m t
                       else Inr ((dbKey, dbValue, None), m)))
           else Inr ((dbKey, dbValue, None), m)
         else Inr ((dbKey, dbValue, None), m))"

subsection \<open>goForward\<close>

definition emptyEntry :: cursorEntry where
  "emptyEntry = \<lparr>key = None, value' = None\<rparr>"

definition goForward ::
  "TableCfg \<Rightarrow> memoryMutationCursor \<Rightarrow> bytes \<Rightarrow> bytes \<Rightarrow> bytes \<Rightarrow> bytes \<Rightarrow> NextType \<Rightarrow> kvReturn" where
  "goForward T m memKey memValue dbKey0 dbValue0 t =
     (if memValue = None \<and> dbValue0 = None then Inr ((None, None, None), m)
      else
        (case skipIntersection T m memKey memValue dbKey0 dbValue0 t of
           Inl p \<Rightarrow> Inl p
         | Inr ((dbKey, dbValue, err), m1) \<Rightarrow>
             if err \<noteq> None then Inr ((None, None, err), m1)
             else
               let m2 = m1\<lparr>currentDbEntry := \<lparr>key = dbKey, value' = dbValue\<rparr>,
                           currentMemEntry := \<lparr>key = memKey, value' = memValue\<rparr>\<rparr>;
                   m3 = (if bytes_Equal memKey dbKey
                         then m2\<lparr>isPrevFromDb :=
                                 dbValue \<noteq> None \<and> (memValue = None \<or> bytes_Compare memValue dbValue > 0)\<rparr>
                         else m2\<lparr>isPrevFromDb :=
                                 dbValue \<noteq> None \<and> (memKey = None \<or> bytes_Compare memKey dbKey > 0)\<rparr>);
                   m4 = (if dbValue = None then m3\<lparr>currentDbEntry := emptyEntry\<rparr> else m3);
                   m5 = (if memValue = None then m4\<lparr>currentMemEntry := emptyEntry\<rparr> else m4)
               in if isPrevFromDb m5 then Inr ((dbKey, dbValue, None), m5)
                  else Inr ((memKey, memValue, None), m5)))"

subsection \<open>First\<close>

definition First :: "TableCfg \<Rightarrow> memoryMutationCursor \<Rightarrow> kvReturn" where
  "First T m =
     (case c_First (memCursor m) of
        ((memKey, memValue, err), mc) \<Rightarrow>
          let m1 = m\<lparr>memCursor := mc\<rparr> in
          if err \<noteq> None then Inr ((None, None, err), m1)
          else if isTableCleared (mutation m1) (table m1)
          then Inr ((memKey, memValue, err), m1\<lparr>isPrevFromDb := False\<rparr>)
          else
            (case c_First (cursor m1) of
               ((dbKey, dbValue, err), dc) \<Rightarrow>
                 let m2 = m1\<lparr>cursor := dc\<rparr> in
                 if err \<noteq> None then Inr ((None, None, err), m2)
                 else if dbKey \<noteq> None \<and> isEntryDeleted (mutation m2) (table m2) dbKey
                 then
                   (case getNextOnDb T m2 Normal of
                      Inl p \<Rightarrow> Inl p
                    | Inr ((dbKey', dbValue', err), m3) \<Rightarrow>
                        if err \<noteq> None then Inr ((None, None, err), m3)
                        else goForward T m3 memKey memValue dbKey' dbValue' Normal)
                 else goForward T m2 memKey memValue dbKey dbValue Normal))"

subsection \<open>Next, NextDup, NextNoDup\<close>

definition Next :: "TableCfg \<Rightarrow> memoryMutationCursor \<Rightarrow> kvReturn" where
  "Next T m =
     (if isPrevFromDb m then
        (case getNextOnDb T m Normal of
           Inl p \<Rightarrow> Inl p
         | Inr ((k, v, err), m1) \<Rightarrow>
             if err \<noteq> None then Inr ((None, None, err), m1)
             else goForward T m1 (key (currentMemEntry m1)) (value' (currentMemEntry m1)) k v Normal)
      else
        (case c_Next (memCursor m) of
           ((memK, memV, err), mc) \<Rightarrow>
             let m1 = m\<lparr>memCursor := mc\<rparr> in
             if err \<noteq> None then Inr ((None, None, err), m1)
             else goForward T m1 memK memV (key (currentDbEntry m1)) (value' (currentDbEntry m1)) Normal))"

definition NextDup :: "TableCfg \<Rightarrow> memoryMutationCursor \<Rightarrow> kvReturn" where
  "NextDup T m =
     (if isPrevFromDb m then
        (case getNextOnDb T m Dup of
           Inl p \<Rightarrow> Inl p
         | Inr ((k, v, err), m1) \<Rightarrow>
             if err \<noteq> None then Inr ((None, None, err), m1)
             else goForward T m1 (key (currentMemEntry m1)) (value' (currentMemEntry m1)) k v Dup)
      else
        (case c_NextDup (memCursor m) of
           ((memK, memV, err), mc) \<Rightarrow>
             let m1 = m\<lparr>memCursor := mc\<rparr> in
             if err \<noteq> None then Inr ((None, None, err), m1)
             else goForward T m1 memK memV (key (currentDbEntry m1)) (value' (currentDbEntry m1)) Dup))"

definition NextNoDup :: "TableCfg \<Rightarrow> memoryMutationCursor \<Rightarrow> kvReturn" where
  "NextNoDup T m =
     (if isPrevFromDb m then
        (case getNextOnDb T m NoDup of
           Inl p \<Rightarrow> Inl p
         | Inr ((k, v, err), m1) \<Rightarrow>
             if err \<noteq> None then Inr ((None, None, err), m1)
             else goForward T m1 (key (currentMemEntry m1)) (value' (currentMemEntry m1)) k v NoDup)
      else
        (case c_NextNoDup (memCursor m) of
           ((memK, memV, err), mc) \<Rightarrow>
             let m1 = m\<lparr>memCursor := mc\<rparr> in
             if err \<noteq> None then Inr ((None, None, err), m1)
             else goForward T m1 memK memV (key (currentDbEntry m1)) (value' (currentDbEntry m1)) NoDup))"

subsection \<open>Seek\<close>


subsection \<open>SeekExact\<close>

definition SeekExact :: "memoryMutationCursor \<Rightarrow> bytes \<Rightarrow> kvReturn" where
  "SeekExact m seek =
     (case c_SeekExact (memCursor m) seek of
        ((memKey, memValue, err), mc) \<Rightarrow>
          let m1 = m\<lparr>memCursor := mc\<rparr> in
          if err \<noteq> None then Inr ((None, None, err), m1)
          else if memKey \<noteq> None then
            (case c_Seek (cursor m1) seek of
               ((dbKey, dbValue, err), dc) \<Rightarrow>
                 Inr ((memKey, memValue, err),
                      m1\<lparr>currentMemEntry := \<lparr>key = memKey, value' = memValue\<rparr>,
                         cursor := dc,
                         currentDbEntry := \<lparr>key = dbKey, value' = dbValue\<rparr>,
                         isPrevFromDb := False\<rparr>))
          else
            (case c_SeekExact (cursor m1) seek of
               ((dbKey, dbValue, err), dc) \<Rightarrow>
                 let m2 = m1\<lparr>cursor := dc\<rparr> in
                 if err \<noteq> None then Inr ((None, None, err), m2)
                 else if dbKey \<noteq> None \<and> \<not> isTableCleared (mutation m2) (table m2)
                         \<and> \<not> isEntryDeleted (mutation m2) (table m2) seek
                 then
                   (case c_Seek (memCursor m2) seek of
                      ((memKey', memValue', err), mc') \<Rightarrow>
                        Inr ((dbKey, dbValue, err),
                             m2\<lparr>currentDbEntry := \<lparr>key = dbKey, value' = dbValue\<rparr>,
                                memCursor := mc',
                                currentMemEntry := \<lparr>key = memKey', value' = memValue'\<rparr>,
                                isPrevFromDb := True\<rparr>))
                 else Inr ((None, None, None), m2)))"

subsection \<open>SeekBothRange\<close>

definition SeekBothRange ::
  "TableCfg \<Rightarrow> memoryMutationCursor \<Rightarrow> bytes \<Rightarrow> bytes \<Rightarrow> panic + ((bytes \<times> error option) \<times> memoryMutationCursor)" where
  "SeekBothRange T m k v =
     (if v = None then
        (case SeekExact m k of
           Inl p \<Rightarrow> Inl p
         | Inr ((_, v', err), m1) \<Rightarrow> Inr ((v', err), m1))
      else
        (case c_SeekBothRange (cursor m) k v of
           ((dbValue, err), dc) \<Rightarrow>
             let m1 = m\<lparr>cursor := dc\<rparr> in
             if err \<noteq> None then Inr ((None, err), m1)
             else
               (case (if dbValue \<noteq> None
                      then (case convertAutoDupsort T m1 k dbValue [] of
                              Inl p \<Rightarrow> Inl p
                            | Inr ek \<Rightarrow>
                                if isEntryDeleted (mutation m1) (table m1) ek
                                then (case getNextOnDb T m1 Dup of
                                        Inl p \<Rightarrow> Inl p
                                      | Inr ((_, dbValue', err), m2) \<Rightarrow> Inr ((dbValue', err), m2))
                                else Inr ((dbValue, None), m1))
                      else Inr ((dbValue, None), m1)) of
                  Inl p \<Rightarrow> Inl p
                | Inr ((dbValue', err), m2) \<Rightarrow>
                    if err \<noteq> None then Inr ((None, err), m2)
                    else
                      (case c_SeekBothRange (memCursor m2) k v of
                         ((memValue, err), mc) \<Rightarrow>
                           let m3 = m2\<lparr>memCursor := mc\<rparr> in
                           if err \<noteq> None then Inr ((None, err), m3)
                           else
                             (case goForward T m3 k memValue k dbValue' Normal of
                                Inl p \<Rightarrow> Inl p
                              | Inr ((_, retValue, err), m4) \<Rightarrow> Inr ((retValue, err), m4))))))"

subsection \<open>Last\<close>

definition Last :: "TableCfg \<Rightarrow> memoryMutationCursor \<Rightarrow> kvReturn" where
  "Last T m =
     (case c_Last (memCursor m) of
        ((memKey, memValue, err), mc) \<Rightarrow>
          let m1 = m\<lparr>memCursor := mc\<rparr> in
          if err \<noteq> None then Inr ((None, None, err), m1)
          else
            (case c_Last (cursor m1) of
               ((dbKey0, dbValue0, err), dc) \<Rightarrow>
                 let m2 = m1\<lparr>cursor := dc\<rparr> in
                 if err \<noteq> None then Inr ((None, None, err), m2)
                 else
                   (case skipIntersection T m2 memKey memValue dbKey0 dbValue0 Normal of
                      Inl p \<Rightarrow> Inl p
                    | Inr ((dbKey, dbValue, err), m3) \<Rightarrow>
                        if err \<noteq> None then Inr ((None, None, err), m3)
                        else
                          let m4 = m3\<lparr>currentDbEntry := \<lparr>key = dbKey, value' = dbValue\<rparr>,
                                      currentMemEntry := \<lparr>key = memKey, value' = memValue\<rparr>\<rparr>
                          in
                          if dbKey \<noteq> None \<and> isEntryDeleted (mutation m4) (table m4) dbKey
                          then Inr ((memKey, memValue, None),
                                    m4\<lparr>currentDbEntry := emptyEntry, isPrevFromDb := False\<rparr>)
                          else if dbValue = None
                          then Inr ((memKey, memValue, None), m4\<lparr>isPrevFromDb := False\<rparr>)
                          else if memValue = None
                          then Inr ((dbKey, dbValue, None), m4\<lparr>isPrevFromDb := True\<rparr>)
                          else
                            let keyCompare = bytes_Compare memKey dbKey in
                            if keyCompare = 0 then
                              if bytes_Compare memValue dbValue > 0
                              then Inr ((memKey, memValue, None),
                                        m4\<lparr>currentDbEntry := emptyEntry, isPrevFromDb := False\<rparr>)
                              else Inr ((dbKey, dbValue, None),
                                        m4\<lparr>currentMemEntry := emptyEntry, isPrevFromDb := True\<rparr>)
                            else if keyCompare > 0
                            then Inr ((memKey, memValue, None),
                                      m4\<lparr>currentDbEntry := emptyEntry, isPrevFromDb := False\<rparr>)
                            else Inr ((dbKey, dbValue, None),
                                      m4\<lparr>currentMemEntry := emptyEntry, isPrevFromDb := True\<rparr>))))"

subsection \<open>Methods whose body is a panic\<close>

definition PutNoDupData :: "memoryMutationCursor \<Rightarrow> bytes \<Rightarrow> bytes \<Rightarrow> panic + (error option \<times> memoryMutationCursor)" where
  "PutNoDupData m k v = Inl (Panic ''DeleteCurrentDuplicates Not implemented'')"

definition DeleteCurrent :: "memoryMutationCursor \<Rightarrow> panic + (error option \<times> memoryMutationCursor)" where
  "DeleteCurrent m = Inl (Panic ''DeleteCurrent Not implemented'')"

definition DeleteExact :: "memoryMutationCursor \<Rightarrow> bytes \<Rightarrow> bytes \<Rightarrow> panic + (error option \<times> memoryMutationCursor)" where
  "DeleteExact m k1 k2 = Inl (Panic ''DeleteExact Not implemented'')"

definition Prev :: "memoryMutationCursor \<Rightarrow> kvReturn" where
  "Prev m = Inl (Panic ''Prev is not implemented!'')"

definition Count :: "memoryMutationCursor \<Rightarrow> panic + ((64 word \<times> error option) \<times> memoryMutationCursor)" where
  "Count m = Inl (Panic ''Not implemented'')"

definition FirstDup :: "memoryMutationCursor \<Rightarrow> panic + ((bytes \<times> error option) \<times> memoryMutationCursor)" where
  "FirstDup m = Inl (Panic ''Not implemented'')"

definition LastDup :: "memoryMutationCursor \<Rightarrow> panic + ((bytes \<times> error option) \<times> memoryMutationCursor)" where
  "LastDup m = Inl (Panic ''Not implemented'')"

definition CountDuplicates :: "memoryMutationCursor \<Rightarrow> panic + ((64 word \<times> error option) \<times> memoryMutationCursor)" where
  "CountDuplicates m = Inl (Panic ''Not implemented'')"

definition SeekBothExact :: "memoryMutationCursor \<Rightarrow> bytes \<Rightarrow> bytes \<Rightarrow> kvReturn" where
  "SeekBothExact m k v = Inl (Panic ''SeekBothExact Not implemented'')"

section \<open>Scans and tables\<close>

text \<open>A cursor as it is created for a table: both underlying cursors without position,
  every other field at its zero value.\<close>

definition newCursor :: "entry list \<Rightarrow> entry list \<Rightarrow> MemoryMutation \<Rightarrow> string \<Rightarrow> memoryMutationCursor" where
  "newCursor base overlay mu tbl =
     \<lparr>cursor = \<lparr>entries = base, pos = None, failure = None\<rparr>,
      memCursor = \<lparr>entries = overlay, pos = None, failure = None\<rparr>,
      isPrevFromDb = False,
      currentDbEntry = emptyEntry,
      currentMemEntry = emptyEntry,
      mutation = mu,
      table = tbl\<rparr>"

text \<open>A cursor on which a scan may start: its underlying cursors read the base \<open>B\<close>
  and the overlay \<open>Ov\<close>, wherever they stand, and have not failed; and where the table
  is cleared the cursor stores no base candidate. A newly created cursor is one.\<close>

definition cursorOver ::
  "entry list \<Rightarrow> entry list \<Rightarrow> MemoryMutation \<Rightarrow> string \<Rightarrow> memoryMutationCursor \<Rightarrow> bool" where
  "cursorOver B Ov mu tbl m \<longleftrightarrow>
     entries (cursor m) = B \<and> failure (cursor m) = None
     \<and> entries (memCursor m) = Ov \<and> failure (memCursor m) = None
     \<and> mutation m = mu \<and> table m = tbl
     \<and> (isTableCleared mu tbl \<longrightarrow> currentDbEntry m = emptyEntry)"

text \<open>A caller's loop \<open>for k, v, err := c.First(); k != nil; k, v, err = c.Next()\<close>:
  the entries it sees, and how it ended. \<open>nexts T n m\<close> makes at most \<open>n\<close> calls of
  \<open>Next\<close>.\<close>

datatype scanEnd = AtNull | AtError error | AtPanic panic | OutOfCalls

fun nexts :: "TableCfg \<Rightarrow> nat \<Rightarrow> memoryMutationCursor \<Rightarrow> (bytes \<times> bytes) list \<times> scanEnd" where
  "nexts T 0 m = ([], OutOfCalls)"
| "nexts T (Suc n) m =
     (case Next T m of
        Inl p \<Rightarrow> ([], AtPanic p)
      | Inr ((k, v, err), m') \<Rightarrow>
          (case err of
             Some e \<Rightarrow> ([], AtError e)
           | None \<Rightarrow>
               if k = None then ([], AtNull)
               else ((k, v) # fst (nexts T n m'), snd (nexts T n m'))))"

definition scan :: "TableCfg \<Rightarrow> nat \<Rightarrow> memoryMutationCursor \<Rightarrow> (bytes \<times> bytes) list \<times> scanEnd" where
  "scan T n m =
     (case First T m of
        Inl p \<Rightarrow> ([], AtPanic p)
      | Inr ((k, v, err), m') \<Rightarrow>
          (case err of
             Some e \<Rightarrow> ([], AtError e)
           | None \<Rightarrow>
               if k = None then ([], AtNull)
               else ((k, v) # fst (nexts T n m'), snd (nexts T n m'))))"

text \<open>The registry's view of a table, in the words of the spec.\<close>

definition dupSortTable :: "TableCfg \<Rightarrow> string \<Rightarrow> bool" where
  "dupSortTable T tbl = (case T tbl of None \<Rightarrow> False | Some c \<Rightarrow> Flags c AND DupSort \<noteq> 0)"

definition autoDupsortTable :: "TableCfg \<Rightarrow> string \<Rightarrow> bool" where
  "autoDupsortTable T tbl = (case T tbl of None \<Rightarrow> False | Some c \<Rightarrow> AutoDupSortKeysConversion c)"

definition dupToLen :: "TableCfg \<Rightarrow> string \<Rightarrow> int" where
  "dupToLen T tbl = (case T tbl of None \<Rightarrow> 0 | Some c \<Rightarrow> DupToLen c)"

definition dupOffset :: "TableCfg \<Rightarrow> string \<Rightarrow> int" where
  "dupOffset T tbl = (case T tbl of None \<Rightarrow> 0 | Some c \<Rightarrow> DupFromLen c - DupToLen c)"

text \<open>The winner's rule of the merge step, in the words of the spec: on equal keys the
  values decide, otherwise the keys; a null base candidate never wins.\<close>

definition baseWins :: "bytes \<Rightarrow> bytes \<Rightarrow> bytes \<Rightarrow> bytes \<Rightarrow> bool" where
  "baseWins memKey memValue dbKey dbValue =
     (if bytes_Equal memKey dbKey
      then dbValue \<noteq> None \<and> (memValue = None \<or> bytes_Compare memValue dbValue > 0)
      else dbValue \<noteq> None \<and> (memKey = None \<or> bytes_Compare memKey dbKey > 0))"

subsection \<open>Tables and the state of a scan\<close>

text \<open>The entries of a table as its cursor scans them: strictly increasing (by key, then
  by value), and strictly increasing by key alone unless the table is dup-sort.\<close>

definition wellFormed :: "TableCfg \<Rightarrow> string \<Rightarrow> entry list \<Rightarrow> bool" where
  "wellFormed T tbl es \<longleftrightarrow>
     sorted_wrt (<) es \<and> (dupSortTable T tbl \<or> sorted_wrt (<) (map fst es))"

text \<open>An entry as a cursor returns it, and the order of returned entries in the words
  of the spec: keys do not decrease, and under equal keys values do not decrease.\<close>

definition toResult :: "entry \<Rightarrow> bytes \<times> bytes" where
  "toResult e = (Some (fst e), Some (snd e))"


text \<open>The candidate a cursor stores for entry \<open>i\<close> of a table: the entry, or the empty
  candidate past the end.\<close>

definition candidate :: "entry list \<Rightarrow> nat \<Rightarrow> cursorEntry" where
  "candidate es i =
     (if i < length es then \<lparr>key = Some (fst (es ! i)), value' = Some (snd (es ! i))\<rparr>
      else emptyEntry)"

text \<open>Between two calls of a scan over base \<open>B\<close> and overlay \<open>Ov\<close>: both cursors
  have a position, each stored candidate is the entry at its cursor's position, and the
  side that did not supply the last result holds an entry that is not smaller.\<close>

definition synced :: "entry list \<Rightarrow> entry list \<Rightarrow> memoryMutationCursor \<Rightarrow> nat \<Rightarrow> nat \<Rightarrow> bool" where
  "synced B Ov m i j \<longleftrightarrow>
     cursor m = \<lparr>entries = B, pos = Some i, failure = None\<rparr>
     \<and> memCursor m = \<lparr>entries = Ov, pos = Some j, failure = None\<rparr>
     \<and> currentDbEntry m = candidate B i
     \<and> currentMemEntry m = candidate Ov j"



text \<open>The same for a scan of a cleared table, which runs on the overlay alone.\<close>

definition trackingCleared :: "entry list \<Rightarrow> memoryMutationCursor \<Rightarrow> nat \<Rightarrow> bool" where
  "trackingCleared Ov m j \<longleftrightarrow>
     memCursor m = \<lparr>entries = Ov, pos = Some j, failure = None\<rparr>
     \<and> j < length Ov \<and> \<not> isPrevFromDb m \<and> currentDbEntry m = emptyEntry"

subsection \<open>The merge of two tables, on lists\<close>

text \<open>
  What a scan of a table without auto-dupsort returns, computed on the two tables
  themselves: \<open>mergeFrom del dup ms ds\<close> for the overlay entries \<open>ms\<close> from the overlay
  cursor's position on and the base entries \<open>ds\<close> from the base cursor's position on,
  with \<open>del\<close> the tombstone test and \<open>dup\<close> the table's dup-sort flag. It follows
  \<open>goForward\<close> and \<open>Next\<close> step by step, with the same comparisons.
\<close>

definition tombstoned :: "MemoryMutation \<Rightarrow> string \<Rightarrow> entry \<Rightarrow> bool" where
  "tombstoned mu tbl e \<longleftrightarrow> fst e \<in> deletedEntries mu tbl"

definition headKey :: "entry list \<Rightarrow> bytes" where
  "headKey xs = (case xs of [] \<Rightarrow> None | x # _ \<Rightarrow> Some (fst x))"

definition headValue :: "entry list \<Rightarrow> bytes" where
  "headValue xs = (case xs of [] \<Rightarrow> None | x # _ \<Rightarrow> Some (snd x))"

definition collide :: "bool \<Rightarrow> entry list \<Rightarrow> entry list \<Rightarrow> bool" where
  "collide dup ms ds \<longleftrightarrow>
     bytes_Equal (headKey ms) (headKey ds) \<and> (\<not> dup \<or> bytes_Equal (headValue ms) (headValue ds))"

lemma baseWins_nonempty: "baseWins a b (headKey xs) (headValue xs) \<Longrightarrow> xs \<noteq> []"
  by (auto simp: baseWins_def headValue_def split: if_splits)

function mergeFrom :: "(entry \<Rightarrow> bool) \<Rightarrow> bool \<Rightarrow> entry list \<Rightarrow> entry list \<Rightarrow> entry list" where
  "mergeFrom del dup ms ds =
     (if ms = [] \<and> ds = [] then []
      else
        let ds' = (if collide dup ms ds then dropWhile del (tl ds) else ds)
        in if baseWins (headKey ms) (headValue ms) (headKey ds') (headValue ds')
           then hd ds' # mergeFrom del dup ms (dropWhile del (tl ds'))
           else if ms = [] then [] else hd ms # mergeFrom del dup (tl ms) ds')"
  by pat_completeness auto
termination
proof (relation "measure (\<lambda>(del, dup, ms, ds). length ms + length ds)")
  show "wf (measure (\<lambda>(del, dup, ms, ds). length ms + length ds))" by simp
next
  fix del :: "entry \<Rightarrow> bool" and dup :: bool and ms ds x :: "entry list"
  assume x: "x = (if collide dup ms ds then dropWhile del (tl ds) else ds)"
    and w: "baseWins (headKey ms) (headValue ms) (headKey x) (headValue x)"
  have "length (dropWhile del (tl ds)) \<le> length ds"
    by (rule order_trans [OF length_dropWhile_le]) simp
  with x have le: "length x \<le> length ds" by simp
  from w have "x \<noteq> []" by (rule baseWins_nonempty)
  then have "length (dropWhile del (tl x)) < length x"
    by (intro le_less_trans [OF length_dropWhile_le]) simp
  with le show "((del, dup, ms, dropWhile del (tl x)), (del, dup, ms, ds))
      \<in> measure (\<lambda>(del, dup, ms, ds). length ms + length ds)"
    by simp
next
  fix del :: "entry \<Rightarrow> bool" and dup :: bool and ms ds x :: "entry list"
  assume x: "x = (if collide dup ms ds then dropWhile del (tl ds) else ds)"
    and ms: "ms \<noteq> []"
  have "length (dropWhile del (tl ds)) \<le> length ds"
    by (rule order_trans [OF length_dropWhile_le]) simp
  with x have le: "length x \<le> length ds" by simp
  from ms have "length (tl ms) < length ms" by (cases ms) simp_all
  with le show "((del, dup, tl ms, x), (del, dup, ms, ds))
      \<in> measure (\<lambda>(del, dup, ms, ds). length ms + length ds)"
    by simp
qed

declare mergeFrom.simps [simp del]

text \<open>A step of a caller's loop: the result of a call, and then the rest of the loop.\<close>

definition yieldThen ::
  "kvReturn \<Rightarrow> (memoryMutationCursor \<Rightarrow> (bytes \<times> bytes) list \<times> scanEnd) \<Rightarrow> (bytes \<times> bytes) list \<times> scanEnd" where
  "yieldThen r cont =
     (case r of
        Inl p \<Rightarrow> ([], AtPanic p)
      | Inr ((k, v, err), m') \<Rightarrow>
          (case err of
             Some e \<Rightarrow> ([], AtError e)
           | None \<Rightarrow>
               if k = None then ([], AtNull)
               else ((k, v) # fst (cont m'), snd (cont m'))))"

text \<open>A base entry is shadowed by the overlay when the overlay holds the same entry
  (dup-sort table) or an entry with the same key (otherwise).\<close>

definition shadowed :: "bool \<Rightarrow> entry list \<Rightarrow> entry \<Rightarrow> bool" where
  "shadowed dup ms e \<longleftrightarrow> (if dup then e \<in> set ms else fst e \<in> fst ` set ms)"

definition shadows :: "bool \<Rightarrow> entry \<Rightarrow> entry \<Rightarrow> bool" where
  "shadows dup m e \<longleftrightarrow> (if dup then e = m else fst e = fst m)"

text \<open>The order of a table's entries: by key and value, and by key alone unless the
  table is dup-sort.\<close>

definition before :: "bool \<Rightarrow> entry \<Rightarrow> entry \<Rightarrow> bool" where
  "before dup a b \<longleftrightarrow> a < b \<and> (dup \<or> fst a < fst b)"

subsection \<open>Example tables\<close>

text \<open>An auto-dupsort table whose physical keys have 2 bytes and whose logical keys have 5
  (as in scenario S6 of the spec), one with both lengths equal, a dup-sort table, and a
  plain table.\<close>

definition exampleCfg :: TableCfg where
  "exampleCfg tbl =
     (if tbl = ''auto'' then
        Some \<lparr>Flags = DupSort, AutoDupSortKeysConversion = True, DupFromLen = 5, DupToLen = 2\<rparr>
      else if tbl = ''auto0'' then
        Some \<lparr>Flags = DupSort, AutoDupSortKeysConversion = True, DupFromLen = 2, DupToLen = 2\<rparr>
      else if tbl = ''dup'' then
        Some \<lparr>Flags = DupSort, AutoDupSortKeysConversion = False, DupFromLen = 0, DupToLen = 0\<rparr>
      else if tbl = ''plain'' then
        Some \<lparr>Flags = 0, AutoDupSortKeysConversion = False, DupFromLen = 0, DupToLen = 0\<rparr>
      else None)"

definition noMutation :: MemoryMutation where
  "noMutation = \<lparr>clearedTables = {}, deletedEntries = (\<lambda>tbl. {})\<rparr>"

definition bytesAB :: "byte list" where "bytesAB = [0x41, 0x42]"
definition bytesCDEFG :: "byte list" where "bytesCDEFG = [0x43, 0x44, 0x45, 0x46, 0x47]"
definition bytesCDEXY :: "byte list" where "bytesCDEXY = [0x43, 0x44, 0x45, 0x58, 0x59]"
definition bytesABCDE :: "byte list" where "bytesABCDE = [0x41, 0x42, 0x43, 0x44, 0x45]"

text \<open>A plain table with base \<open>{(z,1)}\<close> and overlay \<open>{(k,9)}\<close>, where the key
  \<open>z\<close> is a tombstone.\<close>

definition zDeleted :: MemoryMutation where
  "zDeleted = \<lparr>clearedTables = {}, deletedEntries = (\<lambda>tbl. if tbl = ''plain'' then {[0x7a]} else {})\<rparr>"


text \<open>Scenario S5: base \<open>{(k,1)}\<close>, overlay \<open>{(k,9)}\<close>.\<close>

definition s5Cursor :: "string \<Rightarrow> memoryMutationCursor" where
  "s5Cursor tbl = newCursor [([0x6b], [1])] [([0x6b], [9])] noMutation tbl"

section \<open>Facts about the collaborators\<close>

lemma slice_to_room:
  assumes "n \<le> len b"
  shows "slice_to b room n = slice_to b [] n"
  using assms by (cases b) (auto simp: slice_to_def cap_of_def len_def bytes_of_def)

lemma slice_to_in_range:
  assumes "0 \<le> n" and "n \<le> len b"
  shows "\<exists>r. slice_to b [] n = Inr r \<and> bytes_of r = take (nat n) (bytes_of b)"
  using assms by (cases b) (auto simp: slice_to_def cap_of_def bytes_of_def len_def)

lemma lookupCfg_view:
  "Flags (fst (lookupCfg T tbl)) AND DupSort = 0 \<longleftrightarrow> \<not> dupSortTable T tbl"
  "(snd (lookupCfg T tbl) \<and> AutoDupSortKeysConversion (fst (lookupCfg T tbl))) = autoDupsortTable T tbl"
  "autoDupsortTable T tbl \<Longrightarrow>
     DupFromLen (fst (lookupCfg T tbl)) - DupToLen (fst (lookupCfg T tbl)) = dupOffset T tbl"
  "autoDupsortTable T tbl \<Longrightarrow> DupToLen (fst (lookupCfg T tbl)) = dupToLen T tbl"
  by (auto simp: lookupCfg_def dupSortTable_def autoDupsortTable_def dupOffset_def dupToLen_def
      zeroCfg_def split: option.splits)

lemma takeWhile_less_sorted_key:
  assumes "sorted (map fst es)"
  shows "k \<in> fst ` set es \<longleftrightarrow>
     (length (takeWhile (\<lambda>e. fst e < k) es) < length es
      \<and> fst (es ! length (takeWhile (\<lambda>e. fst e < k) es)) = k)"
  using assms
proof (induction es)
  case Nil
  then show ?case by simp
next
  case (Cons e es)
  then show ?case by (auto simp: image_iff)
qed

lemma c_SeekExact_found:
  assumes "failure c = None" and "sorted (map fst (entries c))"
    and "bytes_of seek \<in> fst ` set (entries c)"
  shows "\<exists>v i. c_SeekExact c seek = ((Some (bytes_of seek), Some v, None), c\<lparr>pos := Some i\<rparr>)
            \<and> (bytes_of seek, v) \<in> set (entries c)"
proof -
  let ?i = "length (takeWhile (\<lambda>e. fst e < bytes_of seek) (entries c))"
  have i: "?i < length (entries c)" "fst (entries c ! ?i) = bytes_of seek"
    using takeWhile_less_sorted_key [OF assms(2), of "bytes_of seek"] assms(3) by auto
  then have "(bytes_of seek, snd (entries c ! ?i)) \<in> set (entries c)"
    by (metis nth_mem prod.collapse)
  with i assms(1) show ?thesis
    by (auto simp: c_SeekExact_def Let_def goto_def entry_at_def)
qed

lemma c_SeekExact_missing:
  assumes "failure c = None" and "sorted (map fst (entries c))"
    and "bytes_of seek \<notin> fst ` set (entries c)"
  shows "c_SeekExact c seek = ((None, None, None), c)"
  using takeWhile_less_sorted_key [OF assms(2), of "bytes_of seek"] assms(1,3)
  by (auto simp: c_SeekExact_def Let_def nothing_def)

lemma c_SeekExact_key:
  assumes "c_SeekExact c seek = ((Some k, v, e), c')"
  shows "k = bytes_of seek"
  using assms
  by (auto simp: c_SeekExact_def Let_def nothing_def failed_def goto_def entry_at_def
      split: if_splits)

lemma SeekExact_returns: "\<exists>r. SeekExact m seek = Inr r"
  by (auto simp: SeekExact_def Let_def split: prod.splits)

section \<open>The merge step\<close>

text \<open>
  C4. In the merge step, with the base candidate as the intersection skip left it: on
  equal keys the base entry is returned, and \<open>isPrevFromDb\<close> set, exactly when the base
  value is not nil and the overlay value is nil or greater; on different keys exactly when
  the base value is not nil and the overlay key is nil or greater; otherwise the overlay
  candidate is returned and \<open>isPrevFromDb\<close> cleared. With both candidates nil the step
  returns nil and leaves the cursor as it was.
\<close>

theorem goForward_winner:
  "(memValue = None \<and> dbValue0 = None \<longrightarrow>
      goForward T m memKey memValue dbKey0 dbValue0 t = Inr ((None, None, None), m))
   \<and> (\<not> (memValue = None \<and> dbValue0 = None)
        \<and> skipIntersection T m memKey memValue dbKey0 dbValue0 t = Inr ((dbKey, dbValue, None), m1) \<longrightarrow>
      (\<exists>m'. goForward T m memKey memValue dbKey0 dbValue0 t =
              Inr (if baseWins memKey memValue dbKey dbValue then (dbKey, dbValue, None)
                   else (memKey, memValue, None), m')
          \<and> isPrevFromDb m' = baseWins memKey memValue dbKey dbValue
          \<and> currentDbEntry m' = (if dbValue = None then emptyEntry else \<lparr>key = dbKey, value' = dbValue\<rparr>)
          \<and> currentMemEntry m' = (if memValue = None then emptyEntry else \<lparr>key = memKey, value' = memValue\<rparr>)
          \<and> cursor m' = cursor m1 \<and> memCursor m' = memCursor m1))"
  by (auto simp: goForward_def baseWins_def Let_def)

theorem goForward_winner_witness:
  "(\<exists>m'. goForward exampleCfg (s5Cursor ''plain'') (Some [0x62]) (Some [9]) (Some [0x61]) (Some [1]) Normal
            = Inr ((Some [0x61], Some [1], None), m') \<and> isPrevFromDb m')
   \<and> (\<exists>m'. goForward exampleCfg (s5Cursor ''plain'') (Some [0x61]) (Some [9]) (Some [0x62]) (Some [1]) Normal
            = Inr ((Some [0x61], Some [9], None), m') \<and> \<not> isPrevFromDb m')
   \<and> goForward exampleCfg (s5Cursor ''plain'') None None None None Normal
       = Inr ((None, None, None), s5Cursor ''plain'')"
proof -
  have skip1: "skipIntersection exampleCfg (s5Cursor ''plain'') (Some [0x62]) (Some [9]) (Some [0x61]) (Some [1]) Normal
      = Inr ((Some [0x61], Some [1], None), s5Cursor ''plain'')"
    by (simp add: skipIntersection_def bytes_Equal_def bytes_of_def split_beta)
  have skip2: "skipIntersection exampleCfg (s5Cursor ''plain'') (Some [0x61]) (Some [9]) (Some [0x62]) (Some [1]) Normal
      = Inr ((Some [0x62], Some [1], None), s5Cursor ''plain'')"
    by (simp add: skipIntersection_def bytes_Equal_def bytes_of_def split_beta)
  show ?thesis
    using goForward_winner [where T = exampleCfg and m = "s5Cursor ''plain''" and t = Normal
        and memKey = "Some [0x62]" and memValue = "Some [9]" and ?dbKey0.0 = "Some [0x61]"
        and ?dbValue0.0 = "Some [1]" and dbKey = "Some [0x61]" and dbValue = "Some [1]"
        and ?m1.0 = "s5Cursor ''plain''"]
      goForward_winner [where T = exampleCfg and m = "s5Cursor ''plain''" and t = Normal
        and memKey = "Some [0x61]" and memValue = "Some [9]" and ?dbKey0.0 = "Some [0x62]"
        and ?dbValue0.0 = "Some [1]" and dbKey = "Some [0x62]" and dbValue = "Some [1]"
        and ?m1.0 = "s5Cursor ''plain''"]
      goForward_winner [where T = exampleCfg and m = "s5Cursor ''plain''" and t = Normal
        and memKey = None and memValue = None and ?dbKey0.0 = None and ?dbValue0.0 = None]
    by (auto simp add: skip1 skip2 baseWins_def bytes_Equal_def bytes_Compare_def bytes_of_def)
qed

section \<open>The intersection skip\<close>

text \<open>
  C5, as amended. For a table whose \<open>dup_offset = dup_from_len - dup_to_len\<close> is not
  negative, \<open>skipIntersection\<close> advances the base cursor (\<open>getNextOnDb\<close> with the given
  step kind) exactly when the two keys are byte-equal and the table is not dup-sort, or
  the two values are byte-equal, or the table is auto-dupsort with a \<^emph>\<open>non-zero\<close>
  \<open>dup_offset\<close>, both values have at least \<open>dup_offset\<close> bytes and their first
  \<open>dup_offset\<close> bytes are equal. In every other case the base candidate is returned and
  the cursor is left as it was.
\<close>

theorem skipIntersection_advances:
  assumes "0 \<le> dupOffset T (table m)"
  shows "skipIntersection T m memKey memValue dbKey dbValue t =
     (if bytes_Equal memKey dbKey \<and>
         (\<not> dupSortTable T (table m) \<or> bytes_Equal memValue dbValue \<or>
          (autoDupsortTable T (table m) \<and> dupOffset T (table m) \<noteq> 0
           \<and> dupOffset T (table m) \<le> len memValue \<and> dupOffset T (table m) \<le> len dbValue
           \<and> take (nat (dupOffset T (table m))) (bytes_of memValue)
               = take (nat (dupOffset T (table m))) (bytes_of dbValue)))
      then getNextOnDb T m t else Inr ((dbKey, dbValue, None), m))"
proof (cases "autoDupsortTable T (table m) \<and> dupOffset T (table m) \<noteq> 0
           \<and> dupOffset T (table m) \<le> len memValue \<and> dupOffset T (table m) \<le> len dbValue")
  case True
  then obtain a b where
    a: "slice_to memValue [] (dupOffset T (table m)) = Inr a"
       "bytes_of a = take (nat (dupOffset T (table m))) (bytes_of memValue)" and
    b: "slice_to dbValue [] (dupOffset T (table m)) = Inr b"
       "bytes_of b = take (nat (dupOffset T (table m))) (bytes_of dbValue)"
    using assms slice_to_in_range by metis
  with True show ?thesis
    using lookupCfg_view [of T "table m"]
    by (simp add: skipIntersection_def Let_def split_beta bytes_Equal_def)
next
  case False
  then show ?thesis
    using lookupCfg_view [of T "table m"]
    by (auto simp add: skipIntersection_def Let_def split_beta)
qed

theorem skipIntersection_advances_witness:
  "0 \<le> dupOffset exampleCfg (table (s5Cursor ''auto''))
   \<and> skipIntersection exampleCfg (s5Cursor ''auto'') (Some bytesAB) (Some bytesCDEFG)
        (Some bytesAB) (Some bytesCDEXY) Dup = getNextOnDb exampleCfg (s5Cursor ''auto'') Dup
   \<and> skipIntersection exampleCfg (s5Cursor ''dup'') (Some bytesAB) (Some bytesCDEFG)
        (Some bytesAB) (Some bytesCDEXY) Dup
      = Inr ((Some bytesAB, Some bytesCDEXY, None), s5Cursor ''dup'')
   \<and> skipIntersection exampleCfg (s5Cursor ''plain'') (Some bytesAB) (Some bytesCDEFG)
        (Some bytesAB) (Some bytesCDEXY) Dup = getNextOnDb exampleCfg (s5Cursor ''plain'') Dup"
  using skipIntersection_advances [of exampleCfg "s5Cursor ''auto''" "Some bytesAB"
      "Some bytesCDEFG" "Some bytesAB" "Some bytesCDEXY" Dup]
    skipIntersection_advances [of exampleCfg "s5Cursor ''dup''" "Some bytesAB"
      "Some bytesCDEFG" "Some bytesAB" "Some bytesCDEXY" Dup]
    skipIntersection_advances [of exampleCfg "s5Cursor ''plain''" "Some bytesAB"
      "Some bytesCDEFG" "Some bytesAB" "Some bytesCDEXY" Dup]
  by (simp add: exampleCfg_def s5Cursor_def newCursor_def dupOffset_def dupSortTable_def
      autoDupsortTable_def DupSort_def bytes_Equal_def bytes_of_def len_def
      bytesAB_def bytesCDEFG_def bytesCDEXY_def)

text \<open>The claim as it was stated fails on an auto-dupsort table with
  \<open>dup_from_len = dup_to_len\<close>: the keys are equal, the table is dup-sort and
  auto-dupsort, both values have at least \<open>dup_offset = 0\<close> bytes and their first 0 bytes
  are equal, yet the base candidate comes back unchanged and the base cursor is not
  advanced.\<close>

theorem skipIntersection_zero_offset_counterexample:
  "bytes_Equal (Some bytesAB) (Some bytesAB)
   \<and> dupSortTable exampleCfg ''auto0'' \<and> autoDupsortTable exampleCfg ''auto0''
   \<and> dupOffset exampleCfg ''auto0'' \<le> len (Some [1])
   \<and> dupOffset exampleCfg ''auto0'' \<le> len (Some [2])
   \<and> take (nat (dupOffset exampleCfg ''auto0'')) (bytes_of (Some [1]))
       = take (nat (dupOffset exampleCfg ''auto0'')) (bytes_of (Some [2]))
   \<and> skipIntersection exampleCfg (s5Cursor ''auto0'') (Some bytesAB) (Some [1]) (Some bytesAB) (Some [2]) Normal
       = Inr ((Some bytesAB, Some [2], None), s5Cursor ''auto0'')
   \<and> getNextOnDb exampleCfg (s5Cursor ''auto0'') Normal
       \<noteq> Inr ((Some bytesAB, Some [2], None), s5Cursor ''auto0'')"
  by (simp add: skipIntersection_def getNextOnDb_def stepOnDb_def c_Next_def goto_def entry_at_def
      lookupCfg_def exampleCfg_def s5Cursor_def newCursor_def dupOffset_def dupSortTable_def
      autoDupsortTable_def DupSort_def bytes_Equal_def bytes_of_def len_def Normal_def
      getNextOnDb_loop.simps convertAutoDupsort_def isEntryDeleted_def noMutation_def bytesAB_def)

section \<open>Key normalization\<close>

text \<open>
  C7, as amended. \<open>convertAutoDupsort\<close> returns the key unchanged when the table is not
  configured as auto-dupsort (also when the registry does not hold the table) or when the
  key's length differs from \<open>dup_to_len\<close>. Otherwise, with
  \<open>d = dup_from_len - dup_to_len\<close>: when \<open>d\<close> is not negative and not beyond the
  capacity of the value, it returns the key with the first \<open>d\<close> bytes of the value's
  backing array appended, which are the first \<open>d\<close> bytes of the value when the value
  has that many; when \<open>d\<close> is negative or beyond the capacity of the value (so for
  every nil value when \<open>d > 0\<close>), the slice expression panics.
\<close>

theorem convertAutoDupsort_normalizes:
  "convertAutoDupsort T m k v room =
     (if \<not> autoDupsortTable T (table m) \<or> len k \<noteq> dupToLen T (table m) then Inr k
      else if 0 \<le> dupOffset T (table m) \<and> dupOffset T (table m) \<le> cap_of v room
      then Inr (append_bytes k (Some (take (nat (dupOffset T (table m))) (bytes_of v @ room))))
      else Inl SliceBoundsOutOfRange)
   \<and> (dupOffset T (table m) \<le> len v \<longrightarrow>
        take (nat (dupOffset T (table m))) (bytes_of v @ room)
          = take (nat (dupOffset T (table m))) (bytes_of v))"
proof -
  have "convertAutoDupsort T m k v room =
     (if \<not> autoDupsortTable T (table m) \<or> len k \<noteq> dupToLen T (table m) then Inr k
      else if 0 \<le> dupOffset T (table m) \<and> dupOffset T (table m) \<le> cap_of v room
      then Inr (append_bytes k (Some (take (nat (dupOffset T (table m))) (bytes_of v @ room))))
      else Inl SliceBoundsOutOfRange)"
    by (auto simp: convertAutoDupsort_def lookupCfg_def autoDupsortTable_def dupOffset_def
        dupToLen_def slice_to_def cap_of_def append_bytes_def bytes_of_def len_def
        split: option.splits)
  moreover have "take (nat (dupOffset T (table m))) (bytes_of v @ room)
          = take (nat (dupOffset T (table m))) (bytes_of v)"
    if "dupOffset T (table m) \<le> len v"
    using that by (simp add: len_def)
  ultimately show ?thesis by simp
qed

text \<open>On the auto-dupsort table (\<open>dup_to_len = 2\<close>, \<open>dup_from_len = 5\<close>): the key
  \<open>AB\<close> with the value \<open>CDEFG\<close> becomes \<open>ABCDE\<close>; with the two-byte value
  \<open>CD\<close> whose backing array goes on with \<open>E\<close>, \<open>F\<close> it becomes \<open>ABCDE\<close> as
  well; on other tables, and for a key of another length, the key comes back.\<close>

theorem convertAutoDupsort_normalizes_witness:
  "convertAutoDupsort exampleCfg (s5Cursor ''auto'') (Some bytesAB) (Some bytesCDEFG) []
     = Inr (Some bytesABCDE)
   \<and> convertAutoDupsort exampleCfg (s5Cursor ''auto'') (Some bytesAB) (Some [0x43, 0x44]) [0x45, 0x46]
     = Inr (Some bytesABCDE)
   \<and> convertAutoDupsort exampleCfg (s5Cursor ''plain'') (Some bytesAB) (Some bytesCDEFG) []
     = Inr (Some bytesAB)
   \<and> convertAutoDupsort exampleCfg (s5Cursor ''absent'') (Some bytesAB) None [] = Inr (Some bytesAB)
   \<and> convertAutoDupsort exampleCfg (s5Cursor ''auto'') (Some [0x41]) None [] = Inr (Some [0x41])"
  using convertAutoDupsort_normalizes [of exampleCfg "s5Cursor ''auto''" "Some bytesAB"
      "Some bytesCDEFG" "[]"]
    convertAutoDupsort_normalizes [of exampleCfg "s5Cursor ''auto''" "Some bytesAB"
      "Some [0x43, 0x44]" "[0x45, 0x46]"]
    convertAutoDupsort_normalizes [of exampleCfg "s5Cursor ''plain''" "Some bytesAB"
      "Some bytesCDEFG" "[]"]
    convertAutoDupsort_normalizes [of exampleCfg "s5Cursor ''absent''" "Some bytesAB" None "[]"]
    convertAutoDupsort_normalizes [of exampleCfg "s5Cursor ''auto''" "Some [0x41]" None "[]"]
  by (simp add: exampleCfg_def s5Cursor_def newCursor_def autoDupsortTable_def dupOffset_def
      dupToLen_def len_def cap_of_def bytes_of_def append_bytes_def bytesAB_def bytesCDEFG_def
      bytesABCDE_def)

text \<open>The claim as it was stated fails on a value whose capacity is below the length of
  the prefix to take: on the auto-dupsort table (\<open>dup_to_len = 2\<close>,
  \<open>dup_from_len = 5\<close>) the key \<open>AB\<close> with a nil value, or with the two-byte value
  \<open>CD\<close> of capacity 2, panics.\<close>

theorem convertAutoDupsort_short_value_counterexample:
  "convertAutoDupsort exampleCfg (s5Cursor ''auto'') (Some bytesAB) None []
     = Inl SliceBoundsOutOfRange
   \<and> convertAutoDupsort exampleCfg (s5Cursor ''auto'') (Some bytesAB) (Some [0x43, 0x44]) []
     = Inl SliceBoundsOutOfRange"
  by (simp add: convertAutoDupsort_def lookupCfg_def exampleCfg_def s5Cursor_def newCursor_def
      slice_to_def cap_of_def len_def bytes_of_def bytesAB_def)

section \<open>Exact lookups\<close>

text \<open>
  C6. Over tables sorted by key, with an overlay cursor that does not fail:
  \<open>SeekExact(k)\<close> returns an overlay entry for \<open>k\<close> whenever the overlay holds the
  key, clears \<open>isPrevFromDb\<close> and keeps the base cursor's \<open>Seek(k)\<close> result as the base
  candidate; otherwise (the base cursor not failing either) it returns a base entry for
  \<open>k\<close> when the base holds the key, the table is not cleared and \<open>k\<close> is no tombstone,
  sets \<open>isPrevFromDb\<close> and keeps the overlay cursor's \<open>Seek(k)\<close> result as the overlay
  candidate; in every other case it returns nil and changes neither flag nor candidates.
  Whatever it returns with a key, the key is \<open>k\<close>.
\<close>

theorem SeekExact_prefers_overlay:
  assumes "failure (memCursor m) = None"
    and "sorted (map fst (entries (memCursor m)))"
    and "sorted (map fst (entries (cursor m)))"
  shows
   "(bytes_of seek \<in> fst ` set (entries (memCursor m)) \<longrightarrow>
       (\<exists>v m'. SeekExact m seek =
                 Inr ((Some (bytes_of seek), Some v, snd (snd (fst (c_Seek (cursor m) seek)))), m')
          \<and> (bytes_of seek, v) \<in> set (entries (memCursor m))
          \<and> \<not> isPrevFromDb m'
          \<and> currentMemEntry m' = \<lparr>key = Some (bytes_of seek), value' = Some v\<rparr>
          \<and> currentDbEntry m' = \<lparr>key = fst (fst (c_Seek (cursor m) seek)),
                                  value' = fst (snd (fst (c_Seek (cursor m) seek)))\<rparr>
          \<and> cursor m' = snd (c_Seek (cursor m) seek)))
    \<and> (bytes_of seek \<notin> fst ` set (entries (memCursor m)) \<and> failure (cursor m) = None
        \<and> bytes_of seek \<in> fst ` set (entries (cursor m))
        \<and> \<not> isTableCleared (mutation m) (table m)
        \<and> \<not> isEntryDeleted (mutation m) (table m) seek \<longrightarrow>
       (\<exists>v m'. SeekExact m seek =
                 Inr ((Some (bytes_of seek), Some v, snd (snd (fst (c_Seek (memCursor m) seek)))), m')
          \<and> (bytes_of seek, v) \<in> set (entries (cursor m))
          \<and> isPrevFromDb m'
          \<and> currentDbEntry m' = \<lparr>key = Some (bytes_of seek), value' = Some v\<rparr>
          \<and> currentMemEntry m' = \<lparr>key = fst (fst (c_Seek (memCursor m) seek)),
                                   value' = fst (snd (fst (c_Seek (memCursor m) seek)))\<rparr>
          \<and> memCursor m' = snd (c_Seek (memCursor m) seek)))
    \<and> (bytes_of seek \<notin> fst ` set (entries (memCursor m)) \<and> failure (cursor m) = None
        \<and> (bytes_of seek \<notin> fst ` set (entries (cursor m))
            \<or> isTableCleared (mutation m) (table m)
            \<or> isEntryDeleted (mutation m) (table m) seek) \<longrightarrow>
       (\<exists>m'. SeekExact m seek = Inr ((None, None, None), m')
          \<and> isPrevFromDb m' = isPrevFromDb m
          \<and> currentDbEntry m' = currentDbEntry m \<and> currentMemEntry m' = currentMemEntry m))
    \<and> (\<forall>k v e m'. SeekExact m seek = Inr ((Some k, v, e), m') \<longrightarrow> k = bytes_of seek)"
proof (intro conjI impI allI)
  assume "bytes_of seek \<in> fst ` set (entries (memCursor m))"
  from c_SeekExact_found [OF assms(1,2) this]
  show "\<exists>v m'. SeekExact m seek =
                 Inr ((Some (bytes_of seek), Some v, snd (snd (fst (c_Seek (cursor m) seek)))), m')
          \<and> (bytes_of seek, v) \<in> set (entries (memCursor m))
          \<and> \<not> isPrevFromDb m'
          \<and> currentMemEntry m' = \<lparr>key = Some (bytes_of seek), value' = Some v\<rparr>
          \<and> currentDbEntry m' = \<lparr>key = fst (fst (c_Seek (cursor m) seek)),
                                  value' = fst (snd (fst (c_Seek (cursor m) seek)))\<rparr>
          \<and> cursor m' = snd (c_Seek (cursor m) seek)"
    by (auto simp: SeekExact_def Let_def split: prod.splits)
next
  assume a: "bytes_of seek \<notin> fst ` set (entries (memCursor m)) \<and> failure (cursor m) = None
        \<and> bytes_of seek \<in> fst ` set (entries (cursor m))
        \<and> \<not> isTableCleared (mutation m) (table m)
        \<and> \<not> isEntryDeleted (mutation m) (table m) seek"
  then have mem: "c_SeekExact (memCursor m) seek = ((None, None, None), memCursor m)"
    using c_SeekExact_missing [OF assms(1,2)] by blast
  from a c_SeekExact_found [OF _ assms(3), of seek]
  obtain v i where
    "c_SeekExact (cursor m) seek = ((Some (bytes_of seek), Some v, None), cursor m\<lparr>pos := Some i\<rparr>)"
    and "(bytes_of seek, v) \<in> set (entries (cursor m))"
    by blast
  with a mem
  show "\<exists>v m'. SeekExact m seek =
                 Inr ((Some (bytes_of seek), Some v, snd (snd (fst (c_Seek (memCursor m) seek)))), m')
          \<and> (bytes_of seek, v) \<in> set (entries (cursor m))
          \<and> isPrevFromDb m'
          \<and> currentDbEntry m' = \<lparr>key = Some (bytes_of seek), value' = Some v\<rparr>
          \<and> currentMemEntry m' = \<lparr>key = fst (fst (c_Seek (memCursor m) seek)),
                                   value' = fst (snd (fst (c_Seek (memCursor m) seek)))\<rparr>
          \<and> memCursor m' = snd (c_Seek (memCursor m) seek)"
    by (auto simp: SeekExact_def Let_def split: prod.splits)
next
  assume a: "bytes_of seek \<notin> fst ` set (entries (memCursor m)) \<and> failure (cursor m) = None
        \<and> (bytes_of seek \<notin> fst ` set (entries (cursor m))
            \<or> isTableCleared (mutation m) (table m)
            \<or> isEntryDeleted (mutation m) (table m) seek)"
  then have mem: "c_SeekExact (memCursor m) seek = ((None, None, None), memCursor m)"
    using c_SeekExact_missing [OF assms(1,2)] by blast
  obtain dk dv de dc where db: "c_SeekExact (cursor m) seek = ((dk, dv, de), dc)"
    by (cases "c_SeekExact (cursor m) seek") auto
  have de: "de = None"
    using db a by (auto simp: c_SeekExact_def Let_def goto_def nothing_def split: if_splits)
  have "bytes_of seek \<notin> fst ` set (entries (cursor m)) \<Longrightarrow> dk = None"
    using c_SeekExact_missing [OF _ assms(3), of seek] a db by auto
  with a mem db de
  show "\<exists>m'. SeekExact m seek = Inr ((None, None, None), m')
          \<and> isPrevFromDb m' = isPrevFromDb m
          \<and> currentDbEntry m' = currentDbEntry m \<and> currentMemEntry m' = currentMemEntry m"
    by (auto simp: SeekExact_def Let_def)
next
  fix k v e m'
  assume "SeekExact m seek = Inr ((Some k, v, e), m')"
  then show "k = bytes_of seek"
    by (auto simp: SeekExact_def Let_def split: prod.splits if_splits dest: c_SeekExact_key)
qed

text \<open>Scenario S5 of the spec: with base \<open>{(k,1)}\<close> and overlay \<open>{(k,9)}\<close>,
  \<open>SeekExact(k)\<close> returns \<open>(k,9)\<close>.\<close>

theorem SeekExact_prefers_overlay_witness:
  "failure (memCursor (s5Cursor ''plain'')) = None
   \<and> sorted (map fst (entries (memCursor (s5Cursor ''plain''))))
   \<and> sorted (map fst (entries (cursor (s5Cursor ''plain''))))
   \<and> (\<exists>m'. SeekExact (s5Cursor ''plain'') (Some [0x6b]) = Inr ((Some [0x6b], Some [9], None), m')
          \<and> \<not> isPrevFromDb m'
          \<and> currentDbEntry m' = \<lparr>key = Some [0x6b], value' = Some [1]\<rparr>)"
proof -
  have a: "failure (memCursor (s5Cursor ''plain'')) = None"
    "sorted (map fst (entries (memCursor (s5Cursor ''plain''))))"
    "sorted (map fst (entries (cursor (s5Cursor ''plain''))))"
    by (simp_all add: s5Cursor_def newCursor_def)
  have b: "bytes_of (Some [0x6b]) \<in> fst ` set (entries (memCursor (s5Cursor ''plain'')))"
    by (simp add: s5Cursor_def newCursor_def bytes_of_def)
  have c: "c_Seek (cursor (s5Cursor ''plain'')) (Some [0x6b])
      = ((Some [0x6b], Some [1], None), cursor (s5Cursor ''plain'')\<lparr>pos := Some 0\<rparr>)"
    by (simp add: s5Cursor_def newCursor_def c_Seek_def goto_def entry_at_def bytes_of_def)
  from SeekExact_prefers_overlay [OF a, of "Some [0x6b]"] b
  obtain v m' where
    "SeekExact (s5Cursor ''plain'') (Some [0x6b]) =
       Inr ((Some (bytes_of (Some [0x6b])), Some v,
             snd (snd (fst (c_Seek (cursor (s5Cursor ''plain'')) (Some [0x6b]))))), m')"
    "(bytes_of (Some [0x6b]), v) \<in> set (entries (memCursor (s5Cursor ''plain'')))"
    "\<not> isPrevFromDb m'"
    "currentDbEntry m' = \<lparr>key = fst (fst (c_Seek (cursor (s5Cursor ''plain'')) (Some [0x6b]))),
        value' = fst (snd (fst (c_Seek (cursor (s5Cursor ''plain'')) (Some [0x6b]))))\<rparr>"
    by blast
  then have "SeekExact (s5Cursor ''plain'') (Some [0x6b]) = Inr ((Some [0x6b], Some [9], None), m')
      \<and> \<not> isPrevFromDb m' \<and> currentDbEntry m' = \<lparr>key = Some [0x6b], value' = Some [1]\<rparr>"
    by (simp add: c) (simp add: s5Cursor_def newCursor_def bytes_of_def)
  with a show ?thesis by blast
qed

text \<open>
  C8. With a nil value, \<open>SeekBothRange(k, nil)\<close> is \<open>SeekExact(k)\<close>: that call returns
  (it has no panic), and \<open>SeekBothRange\<close> returns its value and its error, leaving the
  cursor as \<open>SeekExact\<close> left it.
\<close>

theorem SeekBothRange_nil_is_SeekExact:
  "\<exists>k' v' err m'. SeekExact m k = Inr ((k', v', err), m')
      \<and> SeekBothRange T m k None = Inr ((v', err), m')"
proof -
  obtain r where r: "SeekExact m k = Inr r"
    using SeekExact_returns by blast
  obtain k' v' err m' where "r = ((k', v', err), m')"
    by (cases r) auto
  with r show ?thesis
    by (simp add: SeekBothRange_def)
qed

theorem SeekBothRange_nil_is_SeekExact_witness:
  "\<exists>m'. SeekBothRange exampleCfg (s5Cursor ''plain'') (Some [0x6b]) None = Inr ((Some [9], None), m')"
proof -
  have "\<exists>m'. SeekExact (s5Cursor ''plain'') (Some [0x6b]) = Inr ((Some [0x6b], Some [9], None), m')"
    by (simp add: SeekExact_def s5Cursor_def newCursor_def c_SeekExact_def c_Seek_def goto_def
        entry_at_def bytes_of_def Let_def)
  with SeekBothRange_nil_is_SeekExact [of "s5Cursor ''plain''" "Some [0x6b]" exampleCfg]
  show ?thesis by auto
qed

section \<open>Operations without an implementation\<close>

text \<open>
  C9, as amended. \<open>PutNoDupData\<close>, \<open>DeleteCurrent\<close>, \<open>DeleteExact\<close>, \<open>FirstDup\<close>,
  \<open>LastDup\<close>, \<open>Count\<close>, \<open>CountDuplicates\<close>, \<open>SeekBothExact\<close> and \<open>Prev\<close> each
  panic, on every cursor and for all arguments, with a "not implemented" message; none of
  them returns an error to its caller.
\<close>

theorem unsupported_operations_panic:
  "PutNoDupData m k v = Inl (Panic ''DeleteCurrentDuplicates Not implemented'')
   \<and> DeleteCurrent m = Inl (Panic ''DeleteCurrent Not implemented'')
   \<and> DeleteExact m k1 k2 = Inl (Panic ''DeleteExact Not implemented'')
   \<and> FirstDup m = Inl (Panic ''Not implemented'')
   \<and> LastDup m = Inl (Panic ''Not implemented'')
   \<and> Count m = Inl (Panic ''Not implemented'')
   \<and> CountDuplicates m = Inl (Panic ''Not implemented'')
   \<and> SeekBothExact m k v = Inl (Panic ''SeekBothExact Not implemented'')
   \<and> Prev m = Inl (Panic ''Prev is not implemented!'')"
  by (simp add: PutNoDupData_def DeleteCurrent_def DeleteExact_def FirstDup_def LastDup_def
      Count_def CountDuplicates_def SeekBothExact_def Prev_def)

text \<open>The claim as it was stated fails on every cursor: \<open>Prev\<close> does not return at
  all, so it returns no error.\<close>

theorem Prev_panics_counterexample:
  "Prev (s5Cursor ''plain'') = Inl (Panic ''Prev is not implemented!'')
   \<and> (case Prev (s5Cursor ''plain'') of Inl p \<Rightarrow> True | Inr r \<Rightarrow> False)"
  by (simp add: Prev_def)

section \<open>Cleared tables\<close>






section \<open>Tombstones\<close>

text \<open>
  C3 fails on the code. When \<open>SeekExact\<close> finds the key in the overlay, it stores what
  the base cursor's \<open>Seek\<close> returns as the base candidate and does not ask the
  tombstone set about it (\<open>Seek\<close> does ask, and so does the base branch of
  \<open>SeekExact\<close>). With base \<open>{(z,w)}\<close>, overlay \<open>{(k,v)}\<close>, \<open>k < z\<close> and
  \<open>z\<close> a tombstone, on a table without auto-dupsort (the effective key of the base
  entry is \<open>z\<close>): \<open>SeekExact(k)\<close> returns the overlay entry, and the following
  \<open>Next\<close> returns the base entry \<open>(z,w)\<close> from the base side.
\<close>

theorem SeekExact_lookahead_ignores_tombstone:
  assumes "k < z" and "isEntryDeleted mu tbl (Some z)" and "\<not> autoDupsortTable T tbl"
  shows "\<exists>m1. SeekExact (newCursor [(z, w)] [(k, v)] mu tbl) (Some k)
               = Inr ((Some k, Some v, None), m1)
          \<and> \<not> isPrevFromDb m1
          \<and> currentDbEntry m1 = \<lparr>key = Some z, value' = Some w\<rparr>
          \<and> convertAutoDupsort T m1 (Some z) (Some w) [] = Inr (Some z)
          \<and> isEntryDeleted (mutation m1) (table m1) (Some z)
          \<and> (\<exists>m2. Next T m1 = Inr ((Some z, Some w, None), m2) \<and> isPrevFromDb m2)"
proof -
  from assms(1) have nz: "\<not> z < k" and ne: "z \<noteq> []"
    by auto
  define m1 where "m1 = (newCursor [(z, w)] [(k, v)] mu tbl)
      \<lparr>memCursor := \<lparr>entries = [(k, v)], pos = Some 0, failure = None\<rparr>,
       currentMemEntry := \<lparr>key = Some k, value' = Some v\<rparr>,
       cursor := \<lparr>entries = [(z, w)], pos = Some 0, failure = None\<rparr>,
       currentDbEntry := \<lparr>key = Some z, value' = Some w\<rparr>,
       isPrevFromDb := False\<rparr>"
  have s: "SeekExact (newCursor [(z, w)] [(k, v)] mu tbl) (Some k)
      = Inr ((Some k, Some v, None), m1)"
    using nz
    by (simp add: SeekExact_def newCursor_def c_SeekExact_def c_Seek_def goto_def entry_at_def
        bytes_of_def Let_def m1_def)
  have t: "table m1 = tbl" "mutation m1 = mu"
    by (simp_all add: m1_def newCursor_def)
  have c: "convertAutoDupsort T m1 (Some z) (Some w) [] = Inr (Some z)"
    using assms(3)
    by (simp add: convertAutoDupsort_def lookupCfg_def autoDupsortTable_def t split: option.splits)
  have n: "\<exists>m2. Next T m1 = Inr ((Some z, Some w, None), m2) \<and> isPrevFromDb m2"
    using ne
    by (simp add: Next_def m1_def newCursor_def c_Next_def goto_def entry_at_def goForward_def
        skipIntersection_def bytes_Equal_def bytes_of_def Let_def split_beta)
  from s c n t assms(2) show ?thesis
    by (auto simp: m1_def)
qed

theorem SeekExact_lookahead_ignores_tombstone_witness:
  "[0x6b] < [0x7a::byte]
   \<and> isEntryDeleted zDeleted ''plain'' (Some [0x7a])
   \<and> \<not> autoDupsortTable exampleCfg ''plain''
   \<and> (\<exists>m1. SeekExact (newCursor [([0x7a], [1])] [([0x6b], [9])] zDeleted ''plain'') (Some [0x6b])
               = Inr ((Some [0x6b], Some [9], None), m1)
          \<and> (\<exists>m2. Next exampleCfg m1 = Inr ((Some [0x7a], Some [1], None), m2) \<and> isPrevFromDb m2))"
proof -
  have a: "[0x6b] < [0x7a::byte]" by simp
  have b: "isEntryDeleted zDeleted ''plain'' (Some [0x7a])"
    by (simp add: isEntryDeleted_def zDeleted_def bytes_of_def)
  have c: "\<not> autoDupsortTable exampleCfg ''plain''"
    by (simp add: autoDupsortTable_def exampleCfg_def)
  from SeekExact_lookahead_ignores_tombstone [OF a b c, of "[1]" "[9]"] a b c
  show ?thesis by blast
qed

section \<open>Scans: what a step keeps\<close>


lemma entry_at_pos [simp]: "entry_at (c\<lparr>pos := p\<rparr>) i = entry_at c i"
  by (simp add: entry_at_def)

lemma entry_at_candidate:
  "entry_at c i = (key (candidate (entries c) i), value' (candidate (entries c) i))"
  by (simp add: entry_at_def candidate_def emptyEntry_def)

lemma stepOnDb_Normal:
  assumes "failure c = None"
  shows "stepOnDb Normal k v c =
     goto c (case pos c of None \<Rightarrow> 0 | Some i \<Rightarrow> Suc i)"
  using assms by (simp add: stepOnDb_def c_Next_def split: option.splits)







lemma bytes_Compare_pos: "bytes_Compare a b > 0 \<longleftrightarrow> bytes_of b < bytes_of a"
  by (auto simp: bytes_Compare_def)

lemma baseWins_entries:
  "baseWins (Some mk) (Some mv) (Some dk) (Some dv) \<longleftrightarrow> (dk, dv) < (mk, mv)"
  "baseWins None None (Some dk) (Some dv)"
  "\<not> baseWins a b c None"
  by (auto simp: baseWins_def bytes_Equal_def bytes_Compare_pos bytes_of_def)










lemma c_First_new:
  "c_First \<lparr>entries = es, pos = p, failure = None\<rparr>
     = ((key (candidate es 0), value' (candidate es 0), None), \<lparr>entries = es, pos = Some 0, failure = None\<rparr>)"
  by (simp add: c_First_def goto_def entry_at_candidate)

lemma cursorOver_cursors:
  assumes "cursorOver B Ov mu tbl m"
  shows "cursor m = \<lparr>entries = B, pos = pos (cursor m), failure = None\<rparr>"
    and "memCursor m = \<lparr>entries = Ov, pos = pos (memCursor m), failure = None\<rparr>"
    and "mutation m = mu" and "table m = tbl"
  using assms by (simp_all add: cursorOver_def)

lemma cursorOver_new: "cursorOver B Ov mu tbl (newCursor B Ov mu tbl)"
  by (simp add: cursorOver_def newCursor_def)

lemma First_unfold:
  assumes "\<not> isTableCleared (mutation m) (table m)"
    and "cursor m = \<lparr>entries = B, pos = p, failure = None\<rparr>"
    and "memCursor m = \<lparr>entries = Ov, pos = q, failure = None\<rparr>"
    and "m2 = m
      \<lparr>memCursor := \<lparr>entries = Ov, pos = Some 0, failure = None\<rparr>,
       cursor := \<lparr>entries = B, pos = Some 0, failure = None\<rparr>\<rparr>"
  shows "First T m =
      (if key (candidate B 0) \<noteq> None \<and> isEntryDeleted (mutation m) (table m) (key (candidate B 0))
       then (case getNextOnDb T m2 Normal of
               Inl p \<Rightarrow> Inl p
             | Inr ((dbKey', dbValue', err), m3) \<Rightarrow>
                 if err \<noteq> None then Inr ((None, None, err), m3)
                 else goForward T m3 (key (candidate Ov 0)) (value' (candidate Ov 0)) dbKey' dbValue' Normal)
       else goForward T m2 (key (candidate Ov 0)) (value' (candidate Ov 0))
              (key (candidate B 0)) (value' (candidate B 0)) Normal)"
  using assms(1) unfolding First_def assms(4)
  by (simp add: assms(2,3) c_First_new)



lemma wellFormed_step:
  assumes "wellFormed T tbl es" and "Suc j < length es"
  shows "es ! j < es ! Suc j" and "dupSortTable T tbl \<or> fst (es ! j) < fst (es ! Suc j)"
proof -
  from assms show "es ! j < es ! Suc j"
    by (simp add: wellFormed_def sorted_wrt_iff_nth_less)
  from assms have "dupSortTable T tbl \<or> map fst es ! j < map fst es ! Suc j"
    by (auto simp: wellFormed_def sorted_wrt_iff_nth_less)
  with assms(2) show "dupSortTable T tbl \<or> fst (es ! j) < fst (es ! Suc j)"
    by simp
qed


lemma skipIntersection_nil_base:
  assumes "(pk, pv) < (k1, v1)" and "dupSortTable T (table m) \<or> pk < k1"
  shows "skipIntersection T m (Some k1) (Some v1) None None t = Inr ((None, None, None), m)
       \<or> (\<exists>p. skipIntersection T m (Some k1) (Some v1) None None t = Inl p
              \<and> autoDupsortTable T (table m))"
proof (cases "k1 = []")
  case False
  then show ?thesis
    by (simp add: skipIntersection_def bytes_Equal_def bytes_of_def split_beta)
next
  case True
  with assms have d: "dupSortTable T (table m)" and v: "v1 \<noteq> []"
    by auto
  define off where "off = (if snd (lookupCfg T (table m)) \<and> AutoDupSortKeysConversion (fst (lookupCfg T (table m)))
      then DupFromLen (fst (lookupCfg T (table m))) - DupToLen (fst (lookupCfg T (table m))) else 0)"
  have a: "autoDupsortTable T (table m)" if "off \<noteq> 0"
    using that lookupCfg_view(2) [of T "table m"] by (auto simp: off_def split: if_splits)
  have "slice_to (Some v1) [] off = Inl SliceBoundsOutOfRange" if "off < 0"
    using that by (simp add: slice_to_def cap_of_def)
  moreover have "off \<noteq> 0 \<and> off \<le> len (Some v1) \<and> off \<le> len None \<Longrightarrow> off < 0"
    by (simp add: len_def bytes_of_def)
  ultimately show ?thesis
    using d v lookupCfg_view(1) [of T "table m"] a
    by (auto simp add: skipIntersection_def bytes_Equal_def bytes_of_def split_beta Let_def
        off_def [symmetric])
qed

lemma Next_cleared:
  assumes tc: "trackingCleared Ov m j" and wf: "wellFormed T (table m) Ov"
  shows "if Suc j < length Ov
         then (\<exists>p. Next T m = Inl p \<and> autoDupsortTable T (table m))
              \<or> (\<exists>m'. Next T m = Inr ((Some (fst (Ov ! Suc j)), Some (snd (Ov ! Suc j)), None), m')
                    \<and> trackingCleared Ov m' (Suc j) \<and> table m' = table m)
         else (\<exists>m'. Next T m = Inr ((None, None, None), m'))"
proof -
  from tc have mc: "memCursor m = \<lparr>entries = Ov, pos = Some j, failure = None\<rparr>"
    and j: "j < length Ov" and p: "\<not> isPrevFromDb m" and d: "currentDbEntry m = emptyEntry"
    by (simp_all add: trackingCleared_def)
  define m1 where "m1 = m\<lparr>memCursor := \<lparr>entries = Ov, pos = Some (Suc j), failure = None\<rparr>\<rparr>"
  have nx: "Next T m = goForward T m1 (key (candidate Ov (Suc j))) (value' (candidate Ov (Suc j)))
      None None Normal"
    using mc p d by (simp add: Next_def c_Next_def goto_def entry_at_candidate m1_def emptyEntry_def)
  show ?thesis
  proof (cases "Suc j < length Ov")
    case False
    then show ?thesis
      unfolding nx by (simp add: candidate_def emptyEntry_def goForward_def)
  next
    case True
    obtain k1 v1 where e: "Ov ! Suc j = (k1, v1)" by (cases "Ov ! Suc j") auto
    obtain pk pv where pe: "Ov ! j = (pk, pv)" by (cases "Ov ! j") auto
    have c: "candidate Ov (Suc j) = \<lparr>key = Some k1, value' = Some v1\<rparr>"
      using True e by (simp add: candidate_def)
    from wellFormed_step [OF wf True] e pe
    have "(pk, pv) < (k1, v1)" "dupSortTable T (table m1) \<or> pk < k1"
      by (simp_all add: m1_def)
    from skipIntersection_nil_base [OF this, of Normal]
    consider "skipIntersection T m1 (Some k1) (Some v1) None None Normal = Inr ((None, None, None), m1)"
      | p where "skipIntersection T m1 (Some k1) (Some v1) None None Normal = Inl p"
          "autoDupsortTable T (table m1)"
      by blast
    then show ?thesis
    proof cases
      case 1
      then have "\<exists>m'. Next T m = Inr ((Some k1, Some v1, None), m')
          \<and> trackingCleared Ov m' (Suc j) \<and> table m' = table m"
        unfolding nx c using True
        by (simp add: goForward_def Let_def bytes_Equal_def trackingCleared_def m1_def)
      with True e show ?thesis by simp
    next
      case 2
      then have "\<exists>p. Next T m = Inl p \<and> autoDupsortTable T (table m)"
        unfolding nx c by (simp add: goForward_def m1_def)
      with True show ?thesis by simp
    qed
  qed
qed


section \<open>Scans are ordered\<close>




lemma First_cleared:
  assumes "isTableCleared (mutation m) (table m)"
    and "memCursor m = \<lparr>entries = Ov, pos = q, failure = None\<rparr>"
    and "currentDbEntry m = emptyEntry"
  shows "\<exists>m'. First T m
            = Inr ((key (candidate Ov 0), value' (candidate Ov 0), None), m')
          \<and> table m' = table m \<and> (Ov \<noteq> [] \<longrightarrow> trackingCleared Ov m' 0)"
  using assms
  by (simp add: First_def c_First_new trackingCleared_def)





section \<open>Scans of tables without auto-dupsort\<close>

lemma convertAutoDupsort_plain:
  assumes "\<not> autoDupsortTable T (table m)"
  shows "convertAutoDupsort T m k v room = Inr k"
  using assms lookupCfg_view(2) [of T "table m"]
  by (auto simp: convertAutoDupsort_def split_beta)

lemma getNextOnDb_loop_plain:
  assumes "\<not> autoDupsortTable T (table m)"
    and "cursor m = \<lparr>entries = B, pos = Some i, failure = None\<rparr>"
    and "i' = i + length (takeWhile (tombstoned (mutation m) (table m)) (drop i B))"
  shows "getNextOnDb_loop T m Normal (key (candidate B i)) (value' (candidate B i)) =
     Inr ((key (candidate B i'), value' (candidate B i'), None),
          m\<lparr>cursor := \<lparr>entries = B, pos = Some i', failure = None\<rparr>\<rparr>)"
  using assms
proof (induction "length B - i" arbitrary: i m)
  case 0
  then have "drop i B = []" "candidate B i = emptyEntry" by (simp_all add: candidate_def)
  with 0 show ?case
    by (subst getNextOnDb_loop.simps) (simp add: emptyEntry_def)
next
  case (Suc n)
  then have i: "i < length B" by simp
  then have c: "candidate B i = \<lparr>key = Some (fst (B ! i)), value' = Some (snd (B ! i))\<rparr>"
    by (simp add: candidate_def)
  have d: "drop i B = B ! i # drop (Suc i) B"
    using i by (simp add: Cons_nth_drop_Suc)
  show ?case
  proof (cases "tombstoned (mutation m) (table m) (B ! i)")
    case False
    then have "i' = i" using Suc.prems(3) d by simp
    moreover have "m\<lparr>cursor := \<lparr>entries = B, pos = Some i, failure = None\<rparr>\<rparr> = m"
      using Suc.prems(2) by (cases m) simp
    ultimately show ?thesis
      using False Suc.prems(1)
      by (subst getNextOnDb_loop.simps)
        (simp add: c convertAutoDupsort_plain isEntryDeleted_def tombstoned_def bytes_of_def)
  next
    case True
    define m1 where "m1 = m\<lparr>cursor := \<lparr>entries = B, pos = Some (Suc i), failure = None\<rparr>\<rparr>"
    have i': "i' = Suc i + length (takeWhile (tombstoned (mutation m1) (table m1)) (drop (Suc i) B))"
      using True Suc.prems(3) d by (simp add: m1_def)
    have "getNextOnDb_loop T m1 Normal (key (candidate B (Suc i))) (value' (candidate B (Suc i))) =
       Inr ((key (candidate B i'), value' (candidate B i'), None),
          m1\<lparr>cursor := \<lparr>entries = B, pos = Some i', failure = None\<rparr>\<rparr>)"
      using Suc.hyps(2) Suc.prems(1) i'
      by (intro Suc.hyps(1)) (simp_all add: m1_def)
    moreover have "stepOnDb Normal (Some (fst (B ! i))) (Some (snd (B ! i))) (cursor m)
       = ((key (candidate B (Suc i)), value' (candidate B (Suc i)), None),
          \<lparr>entries = B, pos = Some (Suc i), failure = None\<rparr>)"
      using Suc.prems(2) by (simp add: stepOnDb_Normal goto_def entry_at_candidate)
    ultimately show ?thesis
      using True Suc.prems(1)
      by (subst getNextOnDb_loop.simps)
        (simp add: c convertAutoDupsort_plain isEntryDeleted_def tombstoned_def bytes_of_def m1_def)
  qed
qed

lemma getNextOnDb_plain:
  assumes "\<not> autoDupsortTable T (table m)"
    and "cursor m = \<lparr>entries = B, pos = Some i, failure = None\<rparr>"
    and "i' = Suc i + length (takeWhile (tombstoned (mutation m) (table m)) (drop (Suc i) B))"
  shows "getNextOnDb T m Normal =
     Inr ((key (candidate B i'), value' (candidate B i'), None),
          m\<lparr>cursor := \<lparr>entries = B, pos = Some i', failure = None\<rparr>\<rparr>)"
proof -
  define m1 where "m1 = m\<lparr>cursor := \<lparr>entries = B, pos = Some (Suc i), failure = None\<rparr>\<rparr>"
  have "getNextOnDb_loop T m1 Normal (key (candidate B (Suc i))) (value' (candidate B (Suc i))) =
       Inr ((key (candidate B i'), value' (candidate B i'), None),
          m1\<lparr>cursor := \<lparr>entries = B, pos = Some i', failure = None\<rparr>\<rparr>)"
    using assms by (intro getNextOnDb_loop_plain) (simp_all add: m1_def)
  moreover have "stepOnDb Normal None None (cursor m)
       = ((key (candidate B (Suc i)), value' (candidate B (Suc i)), None),
          \<lparr>entries = B, pos = Some (Suc i), failure = None\<rparr>)"
    using assms(2) by (simp add: stepOnDb_Normal goto_def entry_at_candidate)
  ultimately show ?thesis
    by (simp add: getNextOnDb_def m1_def)
qed



lemma skipIntersection_plain:
  assumes "\<not> autoDupsortTable T (table m)"
  shows "skipIntersection T m mk mv dk dv t =
     (if bytes_Equal mk dk \<and> (\<not> dupSortTable T (table m) \<or> bytes_Equal mv dv)
      then getNextOnDb T m t else Inr ((dk, dv, None), m))"
  using assms lookupCfg_view(1,2) [of T "table m"]
  by (auto simp add: skipIntersection_def Let_def split_beta)

lemma head_drop:
  "headKey (drop i es) = key (candidate es i)" "headValue (drop i es) = value' (candidate es i)"
  by (cases "i < length es";
      simp add: headKey_def headValue_def candidate_def emptyEntry_def Cons_nth_drop_Suc [symmetric])+

lemma dropWhile_drop_Suc:
  "dropWhile P (tl (drop i es)) = drop (Suc i + length (takeWhile P (drop (Suc i) es))) es"
proof -
  have "dropWhile P (tl (drop i es)) = dropWhile P (drop (Suc i) es)"
    by (simp add: drop_Suc tl_drop)
  also have "\<dots> = drop (length (takeWhile P (drop (Suc i) es))) (drop (Suc i) es)"
    by (rule dropWhile_eq_drop)
  also have "\<dots> = drop (Suc i + length (takeWhile P (drop (Suc i) es))) es"
    by (simp only: drop_drop add.commute)
  finally show ?thesis .
qed

lemma nexts_Suc: "nexts T (Suc n) m = yieldThen (Next T m) (nexts T n)"
  by (simp add: yieldThen_def split: sum.splits prod.splits option.splits)

lemma scan_yieldThen: "scan T n m = yieldThen (First T m) (nexts T n)"
  by (simp add: scan_def yieldThen_def split: sum.splits prod.splits option.splits)

lemma goForward_after_skip:
  assumes "skipIntersection T m mk mv dk0 dv0 t = Inr ((dk, dv, None), m1)"
    and "\<not> (mv = None \<and> dv0 = None)"
  shows "\<exists>m'. goForward T m mk mv dk0 dv0 t =
            Inr (if baseWins mk mv dk dv then (dk, dv, None) else (mk, mv, None), m')
          \<and> isPrevFromDb m' = baseWins mk mv dk dv
          \<and> currentDbEntry m' = (if dv = None then emptyEntry else \<lparr>key = dk, value' = dv\<rparr>)
          \<and> currentMemEntry m' = (if mv = None then emptyEntry else \<lparr>key = mk, value' = mv\<rparr>)
          \<and> cursor m' = cursor m1 \<and> memCursor m' = memCursor m1
          \<and> mutation m' = mutation m1 \<and> table m' = table m1"
  using assms by (auto simp: goForward_def baseWins_def Let_def)

lemma candidate_collapse:
  "(if value' (candidate es i) = None then emptyEntry
    else \<lparr>key = key (candidate es i), value' = value' (candidate es i)\<rparr>) = candidate es i"
  by (simp add: candidate_def emptyEntry_def)

lemma goForward_plain:
  assumes na: "\<not> autoDupsortTable T (table m)"
    and c: "cursor m = \<lparr>entries = B, pos = Some i, failure = None\<rparr>"
    and mc: "memCursor m = \<lparr>entries = Ov, pos = Some j, failure = None\<rparr>"
    and ne: "\<not> (drop j Ov = [] \<and> drop i B = [])"
    and ds': "ds' = (if collide (dupSortTable T (table m)) (drop j Ov) (drop i B)
                   then dropWhile (tombstoned (mutation m) (table m)) (tl (drop i B)) else drop i B)"
    and w: "w = baseWins (headKey (drop j Ov)) (headValue (drop j Ov)) (headKey ds') (headValue ds')"
  shows "\<exists>m' i'. goForward T m (key (candidate Ov j)) (value' (candidate Ov j))
                  (key (candidate B i)) (value' (candidate B i)) Normal
            = Inr ((if w then (headKey ds', headValue ds', None)
                    else (headKey (drop j Ov), headValue (drop j Ov), None)), m')
          \<and> drop i' B = ds' \<and> synced B Ov m' i' j \<and> isPrevFromDb m' = w
          \<and> mutation m' = mutation m \<and> table m' = table m"
proof -
  define i' where "i' = (if collide (dupSortTable T (table m)) (drop j Ov) (drop i B)
     then Suc i + length (takeWhile (tombstoned (mutation m) (table m)) (drop (Suc i) B)) else i)"
  define m1 where "m1 = m\<lparr>cursor := \<lparr>entries = B, pos = Some i', failure = None\<rparr>\<rparr>"
  have d: "drop i' B = ds'"
    unfolding ds' i'_def by (simp add: dropWhile_drop_Suc)
  have mm: "m\<lparr>cursor := \<lparr>entries = B, pos = Some i, failure = None\<rparr>\<rparr> = m"
    using c by (cases m) simp
  have skip: "skipIntersection T m (key (candidate Ov j)) (value' (candidate Ov j))
                  (key (candidate B i)) (value' (candidate B i)) Normal
      = Inr ((key (candidate B i'), value' (candidate B i'), None), m1)"
  proof (cases "collide (dupSortTable T (table m)) (drop j Ov) (drop i B)")
    case True
    then have "skipIntersection T m (key (candidate Ov j)) (value' (candidate Ov j))
                  (key (candidate B i)) (value' (candidate B i)) Normal = getNextOnDb T m Normal"
      unfolding skipIntersection_plain [OF na] by (simp add: collide_def head_drop)
    with True getNextOnDb_plain [OF na c refl] show ?thesis
      by (simp add: m1_def i'_def)
  next
    case False
    then have "skipIntersection T m (key (candidate Ov j)) (value' (candidate Ov j))
                  (key (candidate B i)) (value' (candidate B i)) Normal
        = Inr ((key (candidate B i), value' (candidate B i), None), m)"
      unfolding skipIntersection_plain [OF na] by (auto simp add: collide_def head_drop)
    with False mm show ?thesis
      by (simp add: m1_def i'_def)
  qed
  have nn: "\<not> (value' (candidate Ov j) = None \<and> value' (candidate B i) = None)"
    using ne by (auto simp: candidate_def emptyEntry_def)
  have w': "w = baseWins (key (candidate Ov j)) (value' (candidate Ov j))
      (key (candidate B i')) (value' (candidate B i'))"
    unfolding w d [symmetric] by (simp add: head_drop)
  from goForward_after_skip [OF skip nn] obtain m' where
    g: "goForward T m (key (candidate Ov j)) (value' (candidate Ov j))
          (key (candidate B i)) (value' (candidate B i)) Normal
        = Inr (if w then (key (candidate B i'), value' (candidate B i'), None)
               else (key (candidate Ov j), value' (candidate Ov j), None), m')"
    and f: "isPrevFromDb m' = w"
    and cd: "currentDbEntry m' = candidate B i'"
    and cm: "currentMemEntry m' = candidate Ov j"
    and cs: "cursor m' = cursor m1" "memCursor m' = memCursor m1"
      "mutation m' = mutation m1" "table m' = table m1"
    unfolding w' [symmetric] candidate_collapse by blast
  have "synced B Ov m' i' j"
    using cd cm cs mc by (simp add: synced_def m1_def)
  moreover have "key (candidate B i') = headKey ds'" "value' (candidate B i') = headValue ds'"
    "key (candidate Ov j) = headKey (drop j Ov)" "value' (candidate Ov j) = headValue (drop j Ov)"
    unfolding d [symmetric] by (simp_all add: head_drop)
  ultimately show ?thesis
    using g f cs(3,4) d
    by (intro exI [of _ m'] exI [of _ i']) (simp add: m1_def)
qed


lemma Next_plain_db:
  assumes "\<not> autoDupsortTable T (table m)" and "synced B Ov m i j" and "isPrevFromDb m"
    and "i' = Suc i + length (takeWhile (tombstoned (mutation m) (table m)) (drop (Suc i) B))"
  shows "Next T m = goForward T (m\<lparr>cursor := \<lparr>entries = B, pos = Some i', failure = None\<rparr>\<rparr>)
           (key (candidate Ov j)) (value' (candidate Ov j))
           (key (candidate B i')) (value' (candidate B i')) Normal"
proof -
  from assms(2) have c: "cursor m = \<lparr>entries = B, pos = Some i, failure = None\<rparr>"
    and cm: "currentMemEntry m = candidate Ov j"
    by (simp_all add: synced_def)
  from getNextOnDb_plain [OF assms(1) c assms(4)] assms(3) cm show ?thesis
    by (simp add: Next_def)
qed

lemma Next_mem:
  assumes "synced B Ov m i j" and "\<not> isPrevFromDb m"
  shows "Next T m = goForward T (m\<lparr>memCursor := \<lparr>entries = Ov, pos = Some (Suc j), failure = None\<rparr>\<rparr>)
           (key (candidate Ov (Suc j))) (value' (candidate Ov (Suc j)))
           (key (candidate B i)) (value' (candidate B i)) Normal"
proof -
  from assms(1) have mc: "memCursor m = \<lparr>entries = Ov, pos = Some j, failure = None\<rparr>"
    and cd: "currentDbEntry m = candidate B i"
    by (simp_all add: synced_def)
  have "c_Next (memCursor m) = ((key (candidate Ov (Suc j)), value' (candidate Ov (Suc j)), None),
      \<lparr>entries = Ov, pos = Some (Suc j), failure = None\<rparr>)"
    using mc by (simp add: c_Next_def goto_def entry_at_candidate)
  with assms(2) cd show ?thesis
    by (simp add: Next_def)
qed

lemma head_toResult:
  "xs \<noteq> [] \<Longrightarrow> (headKey xs, headValue xs) = toResult (hd xs)"
  by (cases xs) (simp_all add: headKey_def headValue_def toResult_def)

lemma headKey_None: "headKey xs = None \<longleftrightarrow> xs = []"
  by (cases xs) (simp_all add: headKey_def)

lemma scan_simulation:
  assumes na: "\<not> autoDupsortTable T tbl"
    and "cursor m = \<lparr>entries = B, pos = Some i, failure = None\<rparr>"
    and "memCursor m = \<lparr>entries = Ov, pos = Some j, failure = None\<rparr>"
    and "mutation m = mu" and "table m = tbl"
    and "length (drop j Ov) + length (drop i B) \<le> n"
  shows "yieldThen (goForward T m (key (candidate Ov j)) (value' (candidate Ov j))
                      (key (candidate B i)) (value' (candidate B i)) Normal) (nexts T n)
     = (map toResult (mergeFrom (tombstoned mu tbl) (dupSortTable T tbl) (drop j Ov) (drop i B)), AtNull)"
  using assms(2-)
proof (induction n arbitrary: m i j)
  case 0
  then have e: "drop j Ov = []" "drop i B = []" by simp_all
  then have "candidate Ov j = emptyEntry" "candidate B i = emptyEntry"
    by (simp_all add: candidate_def)
  then show ?case
    unfolding e by (subst mergeFrom.simps) (simp add: goForward_def emptyEntry_def yieldThen_def)
next
  case (Suc n)
  let ?ms = "drop j Ov" and ?ds = "drop i B"
  let ?del = "tombstoned mu tbl" and ?dup = "dupSortTable T tbl"
  show ?case
  proof (cases "?ms = [] \<and> ?ds = []")
    case True
    then have "candidate Ov j = emptyEntry" "candidate B i = emptyEntry"
      by (simp_all add: candidate_def)
    with True show ?thesis
      by (subst mergeFrom.simps) (simp add: goForward_def emptyEntry_def yieldThen_def)
  next
    case False
    define ds' where "ds' = (if collide ?dup ?ms ?ds then dropWhile ?del (tl ?ds) else ?ds)"
    define w where "w = baseWins (headKey ?ms) (headValue ?ms) (headKey ds') (headValue ds')"
    have na': "\<not> autoDupsortTable T (table m)" using na Suc.prems(4) by simp
    from goForward_plain [OF na' Suc.prems(1,2) False, of ds' w] Suc.prems(3,4)
    obtain m' i' where
      g: "goForward T m (key (candidate Ov j)) (value' (candidate Ov j))
            (key (candidate B i)) (value' (candidate B i)) Normal
          = Inr ((if w then (headKey ds', headValue ds', None)
                  else (headKey ?ms, headValue ?ms, None)), m')"
      and d: "drop i' B = ds'" and sy: "synced B Ov m' i' j" and f: "isPrevFromDb m' = w"
      and mt: "mutation m' = mu" "table m' = tbl"
      unfolding ds'_def w_def by auto
    have le: "length ds' \<le> length ?ds"
      unfolding ds'_def by (auto intro: order_trans [OF length_dropWhile_le])
    have unfold: "mergeFrom ?del ?dup ?ms ?ds =
        (if w then hd ds' # mergeFrom ?del ?dup ?ms (dropWhile ?del (tl ds'))
         else if ?ms = [] then [] else hd ?ms # mergeFrom ?del ?dup (tl ?ms) ds')"
      unfolding w_def ds'_def
      by (subst mergeFrom.simps) (simp only: False if_False Let_def)
    show ?thesis
    proof (cases w)
      case True
      then have ne: "ds' \<noteq> []" unfolding w_def by (rule baseWins_nonempty)
      define i2 where "i2 = Suc i' + length (takeWhile ?del (drop (Suc i') B))"
      define m2 where "m2 = m'\<lparr>cursor := \<lparr>entries = B, pos = Some i2, failure = None\<rparr>\<rparr>"
      have d2: "drop i2 B = dropWhile ?del (tl ds')"
        unfolding i2_def d [symmetric] by (rule dropWhile_drop_Suc [symmetric])
      have nx: "Next T m' = goForward T m2 (key (candidate Ov j)) (value' (candidate Ov j))
           (key (candidate B i2)) (value' (candidate B i2)) Normal"
        unfolding m2_def
        by (rule Next_plain_db [OF _ sy]) (simp_all add: mt na f True i2_def)
      have "length (dropWhile ?del (tl ds')) < length ds'"
        using ne by (intro le_less_trans [OF length_dropWhile_le]) simp
      with le Suc.prems(5) have fuel: "length (drop j Ov) + length (drop i2 B) \<le> n"
        unfolding d2 by simp
      have "yieldThen (Next T m') (nexts T n)
          = (map toResult (mergeFrom ?del ?dup ?ms (drop i2 B)), AtNull)"
        unfolding nx using sy mt fuel
        by (intro Suc.IH) (simp_all add: m2_def synced_def)
      then have "nexts T (Suc n) m' = (map toResult (mergeFrom ?del ?dup ?ms (dropWhile ?del (tl ds'))), AtNull)"
        unfolding nexts_Suc d2 .
      with True ne show ?thesis
        unfolding g unfold
        using head_toResult [OF ne]
        by (simp add: yieldThen_def headKey_None)
    next
      case False
      note nw = this
      show ?thesis
      proof (cases "?ms = []")
        case True
        with nw show ?thesis
          unfolding g unfold by (simp add: yieldThen_def headKey_def)
      next
        case ne: False
        define m1 where "m1 = m'\<lparr>memCursor := \<lparr>entries = Ov, pos = Some (Suc j), failure = None\<rparr>\<rparr>"
        have nx: "Next T m' = goForward T m1 (key (candidate Ov (Suc j))) (value' (candidate Ov (Suc j)))
             (key (candidate B i')) (value' (candidate B i')) Normal"
          unfolding m1_def by (rule Next_mem [OF sy]) (simp add: f nw)
        have tl: "tl ?ms = drop (Suc j) Ov"
          by (simp add: drop_Suc tl_drop)
        have "length (tl ?ms) < length ?ms" using ne by (cases ?ms) simp_all
        with le Suc.prems(5) have fuel: "length (drop (Suc j) Ov) + length (drop i' B) \<le> n"
          unfolding d tl by simp
        have "yieldThen (Next T m') (nexts T n)
            = (map toResult (mergeFrom ?del ?dup (drop (Suc j) Ov) (drop i' B)), AtNull)"
          unfolding nx using sy mt fuel
          by (intro Suc.IH) (simp_all add: m1_def synced_def)
        then have "nexts T (Suc n) m' = (map toResult (mergeFrom ?del ?dup (tl ?ms) ds'), AtNull)"
          unfolding nexts_Suc d tl .
        with nw ne show ?thesis
          unfolding g unfold
          using head_toResult [OF ne]
          by (simp add: yieldThen_def headKey_None)
      qed
    qed
  qed
qed


section \<open>The merge on lists\<close>

lemma shadowed_iff: "shadowed dup ms e \<longleftrightarrow> (\<exists>m\<in>set ms. shadows dup m e)"
  by (auto simp: shadowed_def shadows_def)

lemma before_trans: "before dup a b \<Longrightarrow> before dup b c \<Longrightarrow> before dup a c"
  by (auto simp: before_def)

lemma before_not_shadows: "before dup a b \<Longrightarrow> \<not> shadows dup a b \<and> \<not> shadows dup b a"
  by (auto simp: before_def shadows_def)

lemma before_cases: "shadows dup a b \<or> before dup a b \<or> before dup b a"
  by (cases a; cases b) (auto simp: before_def shadows_def)

lemma wellFormed_before:
  "wellFormed T tbl es \<longleftrightarrow> sorted_wrt (before (dupSortTable T tbl)) es"
  by (induction es) (auto simp: wellFormed_def before_def)

lemma baseWins_before:
  assumes "\<not> shadows dup m d"
  shows "baseWins (Some (fst m)) (Some (snd m)) (Some (fst d)) (Some (snd d)) \<longleftrightarrow> before dup d m"
  using assms baseWins_entries(1) [of "fst m" "snd m" "fst d" "snd d"]
  by (cases m; cases d; cases dup) (auto simp: before_def shadows_def)

lemma collide_Cons:
  "collide dup (m # ms) (d # ds) \<longleftrightarrow> shadows dup m d"
  by (cases m; cases d)
    (auto simp: collide_def headKey_def headValue_def bytes_Equal_def bytes_of_def shadows_def)

lemma collide_Nil_after:
  assumes "before dup a d"
  shows "\<not> collide dup [] (d # ds)"
  using assms
  by (cases a; cases d; cases dup)
    (auto simp: collide_def headKey_def headValue_def bytes_Equal_def bytes_of_def before_def)

lemma collide_Nil_nonempty_key:
  assumes "fst d \<noteq> []"
  shows "\<not> collide dup [] (d # ds)"
  using assms by (auto simp: collide_def headKey_def bytes_Equal_def bytes_of_def)

lemma filter_dropWhile_deleted:
  "filter (\<lambda>e. \<not> del e \<and> Q e) (dropWhile del xs) = filter (\<lambda>e. \<not> del e \<and> Q e) xs"
  by (induction xs) auto

lemma not_del_hd_dropWhile: "dropWhile del xs \<noteq> [] \<longrightarrow> \<not> del (hd (dropWhile del xs))"
  using hd_dropWhile by blast


lemma mergeFrom_mset:
  assumes "sorted_wrt (before dup) ms" and "sorted_wrt (before dup) ds"
    and "ms = [] \<longrightarrow> ds = [] \<or> \<not> collide dup [] ds"
    and "ds \<noteq> [] \<longrightarrow> \<not> del (hd ds)"
  shows "mset (mergeFrom del dup ms ds)
       = mset ms + mset (filter (\<lambda>e. \<not> del e \<and> \<not> shadowed dup ms e) ds)"
  using assms
proof (induction "length ms + length ds" arbitrary: ms ds rule: less_induct)
  case less
  let ?vis = "\<lambda>ms e. \<not> del e \<and> \<not> shadowed dup ms e"
  show ?case
  proof (cases "ms = [] \<and> ds = []")
    case True
    then show ?thesis by (subst mergeFrom.simps) simp
  next
    case False
    define ds' where "ds' = (if collide dup ms ds then dropWhile del (tl ds) else ds)"
    define w where "w = baseWins (headKey ms) (headValue ms) (headKey ds') (headValue ds')"
    have unfold: "mergeFrom del dup ms ds =
        (if w then hd ds' # mergeFrom del dup ms (dropWhile del (tl ds'))
         else if ms = [] then [] else hd ms # mergeFrom del dup (tl ms) ds')"
      unfolding w_def ds'_def
      by (subst mergeFrom.simps) (simp only: False if_False Let_def)
    have le: "length ds' \<le> length ds"
      unfolding ds'_def by (auto intro: order_trans [OF length_dropWhile_le])
    have sub: "set ds' \<subseteq> set ds"
      unfolding ds'_def by (cases ds) (auto dest: set_dropWhileD)
    have sd': "sorted_wrt (before dup) ds'"
      unfolding ds'_def using less.prems(2) by (cases ds) auto
    have nd': "ds' \<noteq> [] \<longrightarrow> \<not> del (hd ds')"
      unfolding ds'_def using less.prems(4) not_del_hd_dropWhile [of del "tl ds"] by simp
    have ds'_Nil: "ds' = []" if "ds = []"
      using that by (simp add: ds'_def)
    have coll: "collide dup ms ds \<longleftrightarrow> ms \<noteq> [] \<and> shadows dup (hd ms) (hd ds)" if "ds \<noteq> []"
    proof (cases ms)
      case Nil
      with that less.prems(3) show ?thesis by simp
    next
      case (Cons m ms0)
      with that show ?thesis
        by (cases ds) (auto simp: collide_Cons)
    qed
    have filt: "filter (?vis ms) ds = filter (?vis ms) ds'"
    proof (cases "collide dup ms ds")
      case True
      show ?thesis
      proof (cases ds)
        case Nil
        then show ?thesis by (simp add: ds'_def)
      next
        case (Cons d ds0)
        with True coll have "shadowed dup ms d"
          by (cases ms) (auto simp: shadowed_iff)
        with True Cons show ?thesis
          by (simp add: ds'_def filter_dropWhile_deleted)
      qed
    next
      case False
      then show ?thesis by (simp add: ds'_def)
    qed
    have apart: "\<not> shadows dup (hd ms) (hd ds')" if "ms \<noteq> []" "ds' \<noteq> []"
    proof (cases "collide dup ms ds")
      case True
      from that(2) ds'_Nil obtain d ds0 where ds: "ds = d # ds0"
        by (cases ds) auto
      with True coll have sh: "shadows dup (hd ms) d" by simp
      from that(2) True ds have "dropWhile del ds0 \<noteq> []" "ds' = dropWhile del ds0"
        by (simp_all add: ds'_def)
      then have "hd ds' \<in> set (dropWhile del ds0)" by simp
      then have "hd ds' \<in> set ds0" by (rule set_dropWhileD)
      with less.prems(2) ds have b: "before dup d (hd ds')" by auto
      show ?thesis
      proof
        assume "shadows dup (hd ms) (hd ds')"
        with sh b show False
          by (cases dup) (auto simp: shadows_def before_def)
      qed
    next
      case False
      with that have "ds \<noteq> []" "ds' = ds" by (simp_all add: ds'_def)
      with False coll that(1) show ?thesis by simp
    qed
    show ?thesis
    proof (cases w)
      case True
      then have ne: "ds' \<noteq> []" unfolding w_def by (rule baseWins_nonempty)
      then obtain d' ds0' where d': "ds' = d' # ds0'" by (cases ds') auto
      have vis: "?vis ms d'"
      proof (cases ms)
        case Nil
        with nd' d' show ?thesis by (simp add: shadowed_def)
      next
        case (Cons m ms0)
        from apart Cons d' have ns: "\<not> shadows dup m d'" by simp
        from True have "baseWins (Some (fst m)) (Some (snd m)) (Some (fst d')) (Some (snd d'))"
          unfolding w_def Cons d' by (simp add: headKey_def headValue_def)
        with baseWins_before [OF ns] have b: "before dup d' m" by simp
        have "\<not> shadows dup x d'" if "x \<in> set ms" for x
        proof (cases "x = m")
          case True
          with ns show ?thesis by simp
        next
          case False
          with that Cons less.prems(1) have "before dup m x" by auto
          with b have "before dup d' x" by (rule before_trans)
          then show ?thesis using before_not_shadows by blast
        qed
        with nd' d' show ?thesis by (auto simp: shadowed_iff)
      qed
      have "mset (mergeFrom del dup ms (dropWhile del (tl ds')))
          = mset ms + mset (filter (?vis ms) (dropWhile del (tl ds')))"
      proof (rule less.hyps)
        have "length (dropWhile del (tl ds')) < length ds'"
          using ne by (intro le_less_trans [OF length_dropWhile_le]) simp
        with le show "length ms + length (dropWhile del (tl ds')) < length ms + length ds"
          by simp
        show "sorted_wrt (before dup) ms" by (rule less.prems(1))
        show "sorted_wrt (before dup) (dropWhile del (tl ds'))"
          using sd' d' by simp
        show "ms = [] \<longrightarrow> dropWhile del (tl ds') = []
            \<or> \<not> collide dup [] (dropWhile del (tl ds'))"
        proof (cases "dropWhile del (tl ds')")
          case Nil
          then show ?thesis by simp
        next
          case (Cons x xs)
          then have "x \<in> set (dropWhile del ds0')" using d' by simp
          then have "x \<in> set ds0'" by (rule set_dropWhileD)
          with sd' d' have "before dup d' x" by simp
          then show ?thesis unfolding Cons by (simp add: collide_Nil_after)
        qed
        show "dropWhile del (tl ds') \<noteq> [] \<longrightarrow> \<not> del (hd (dropWhile del (tl ds')))"
          by (rule not_del_hd_dropWhile)
      qed
      then have "mset (mergeFrom del dup ms ds) = mset ms + mset (filter (?vis ms) ds')"
        unfolding unfold using True vis d' by (simp add: filter_dropWhile_deleted)
      then show ?thesis unfolding filt .
    next
      case nw: False
      show ?thesis
      proof (cases ms)
        case Nil
        with nw have "ds' = []"
          unfolding w_def using baseWins_entries(2)
          by (cases ds') (auto simp: headKey_def headValue_def)
        with Nil nw show ?thesis
          unfolding unfold filt by simp
      next
        case (Cons m ms0)
        have first: "before dup m d'" if d': "ds' = d' # ds0'" for d' ds0'
        proof -
          from apart Cons d' have ns: "\<not> shadows dup m d'" by simp
          from nw have "\<not> baseWins (Some (fst m)) (Some (snd m)) (Some (fst d')) (Some (snd d'))"
            unfolding w_def Cons d' by (simp add: headKey_def headValue_def)
          with baseWins_before [OF ns] have "\<not> before dup d' m" by simp
          with ns before_cases [of dup m d'] show ?thesis by blast
        qed
        have keep: "?vis ms e \<longleftrightarrow> ?vis ms0 e" if mem: "e \<in> set ds'" for e
        proof -
          obtain d' ds0' where d': "ds' = d' # ds0'"
            using mem by (cases ds') auto
          then have b: "before dup m d'" by (rule first)
          have "before dup m e"
          proof (cases "e = d'")
            case True
            with b show ?thesis by simp
          next
            case False
            with mem d' sd' have "before dup d' e" by auto
            with b show ?thesis by (rule before_trans)
          qed
          then have "\<not> shadows dup m e" using before_not_shadows by blast
          then show ?thesis by (simp add: shadowed_iff Cons)
        qed
        have "mset (mergeFrom del dup ms0 ds') = mset ms0 + mset (filter (?vis ms0) ds')"
        proof (rule less.hyps)
          show "length ms0 + length ds' < length ms + length ds"
            using le Cons by simp
          show "sorted_wrt (before dup) ms0" using less.prems(1) Cons by simp
          show "sorted_wrt (before dup) ds'" by (rule sd')
          show "ms0 = [] \<longrightarrow> ds' = [] \<or> \<not> collide dup [] ds'"
          proof (cases ds')
            case Nil
            then show ?thesis by simp
          next
            case ds': (Cons d' ds0')
            then have "before dup m d'" by (rule first)
            then show ?thesis unfolding ds' by (simp add: collide_Nil_after)
          qed
          show "ds' \<noteq> [] \<longrightarrow> \<not> del (hd ds')" by (rule nd')
        qed
        moreover have "filter (?vis ms) ds' = filter (?vis ms0) ds'"
          using keep by (intro filter_cong) auto
        ultimately show ?thesis
          unfolding unfold filt using nw Cons by simp
      qed
    qed
  qed
qed


section \<open>Scans merge the two tables\<close>

lemma scan_plain:
  assumes na: "\<not> autoDupsortTable T tbl" and nc: "\<not> isTableCleared mu tbl"
    and ov: "cursorOver B Ov mu tbl m"
    and fuel: "length B + length Ov \<le> n"
  shows "scan T n m
     = (map toResult (mergeFrom (tombstoned mu tbl) (dupSortTable T tbl) Ov
                        (dropWhile (tombstoned mu tbl) B)), AtNull)"
proof -
  note m = cursorOver_cursors [OF ov]
  define m2 where "m2 = m
      \<lparr>memCursor := \<lparr>entries = Ov, pos = Some 0, failure = None\<rparr>,
       cursor := \<lparr>entries = B, pos = Some 0, failure = None\<rparr>\<rparr>"
  have m2: "cursor m2 = \<lparr>entries = B, pos = Some 0, failure = None\<rparr>"
    "memCursor m2 = \<lparr>entries = Ov, pos = Some 0, failure = None\<rparr>"
    "mutation m2 = mu" "table m2 = tbl"
    by (simp_all add: m2_def m)
  from nc have "\<not> isTableCleared (mutation m) (table m)"
    by (simp add: m)
  note first = First_unfold [OF this m(1,2) m2_def, of T, unfolded m(3,4)]
  show ?thesis
  proof (cases "key (candidate B 0) \<noteq> None \<and> isEntryDeleted mu tbl (key (candidate B 0))")
    case True
    then have B: "B \<noteq> []" and del: "tombstoned mu tbl (hd B)"
      by (auto simp: candidate_def emptyEntry_def isEntryDeleted_def tombstoned_def bytes_of_def
          hd_conv_nth split: if_splits)
    define i' where "i' = Suc 0 + length (takeWhile (tombstoned mu tbl) (drop (Suc 0) B))"
    define m3 where "m3 = m2\<lparr>cursor := \<lparr>entries = B, pos = Some i', failure = None\<rparr>\<rparr>"
    have g: "getNextOnDb T m2 Normal =
        Inr ((key (candidate B i'), value' (candidate B i'), None), m3)"
      unfolding m3_def by (rule getNextOnDb_plain [OF _ m2(1)]) (simp_all add: m2 na i'_def)
    have f: "First T m =
        goForward T m3 (key (candidate Ov 0)) (value' (candidate Ov 0))
          (key (candidate B i')) (value' (candidate B i')) Normal"
      unfolding first using True by (simp add: g)
    have d: "drop i' B = dropWhile (tombstoned mu tbl) B"
    proof -
      have "drop i' B = dropWhile (tombstoned mu tbl) (tl (drop 0 B))"
        unfolding i'_def by (rule dropWhile_drop_Suc [symmetric])
      also have "\<dots> = dropWhile (tombstoned mu tbl) B"
        using B del by (cases B) simp_all
      finally show ?thesis .
    qed
    have "length (drop 0 Ov) + length (drop i' B) \<le> n"
      using fuel by simp
    from scan_simulation [OF na _ _ _ _ this, of m3 mu] m2 show ?thesis
      unfolding scan_yieldThen f d by (simp add: m3_def)
  next
    case False
    then have d: "dropWhile (tombstoned mu tbl) B = B"
      by (cases B)
        (auto simp: candidate_def emptyEntry_def isEntryDeleted_def tombstoned_def bytes_of_def)
    have f: "First T m =
        goForward T m2 (key (candidate Ov 0)) (value' (candidate Ov 0))
          (key (candidate B 0)) (value' (candidate B 0)) Normal"
      unfolding first by (rule if_not_P [OF False])
    have "length (drop 0 Ov) + length (drop 0 B) \<le> n"
      using fuel by simp
    from scan_simulation [OF na m2 this] show ?thesis
      unfolding scan_yieldThen f d by simp
  qed
qed

lemma nexts_cleared_plain:
  assumes "trackingCleared Ov m j" and "wellFormed T (table m) Ov"
    and "\<not> autoDupsortTable T (table m)" and "length Ov - j \<le> n"
  shows "nexts T n m = (map toResult (drop (Suc j) Ov), AtNull)"
  using assms
proof (induction n arbitrary: m j)
  case 0
  then show ?case by (simp add: trackingCleared_def)
next
  case (Suc n)
  show ?case
  proof (cases "Suc j < length Ov")
    case True
    with Next_cleared [OF Suc.prems(1,2)] Suc.prems(3)
    obtain m' where nx: "Next T m = Inr ((Some (fst (Ov ! Suc j)), Some (snd (Ov ! Suc j)), None), m')"
      and t': "trackingCleared Ov m' (Suc j)" and tb: "table m' = table m"
      by auto
    have "nexts T n m' = (map toResult (drop (Suc (Suc j)) Ov), AtNull)"
      using Suc.prems True by (intro Suc.IH [OF t']) (simp_all add: tb)
    moreover have "drop (Suc j) Ov = Ov ! Suc j # drop (Suc (Suc j)) Ov"
      using True by (simp add: Cons_nth_drop_Suc)
    ultimately show ?thesis
      using nx by (simp add: toResult_def)
  next
    case False
    with Next_cleared [OF Suc.prems(1,2)]
    obtain m' where "Next T m = Inr ((None, None, None), m')" by auto
    with False show ?thesis by simp
  qed
qed

lemma scan_cleared_plain:
  assumes "isTableCleared mu tbl" and "wellFormed T tbl Ov" and "\<not> autoDupsortTable T tbl"
    and ov: "cursorOver B Ov mu tbl m"
    and "length Ov \<le> n"
  shows "scan T n m = (map toResult Ov, AtNull)"
proof -
  note m = cursorOver_cursors [OF ov]
  from assms(1) ov have "isTableCleared (mutation m) (table m)" "currentDbEntry m = emptyEntry"
    by (simp_all add: cursorOver_def)
  from First_cleared [OF this(1) m(2) this(2), of T] m(4) obtain m' where
    f: "First T m = Inr ((key (candidate Ov 0), value' (candidate Ov 0), None), m')"
    and tb: "table m' = tbl" and tc: "Ov \<noteq> [] \<Longrightarrow> trackingCleared Ov m' 0"
    by auto
  show ?thesis
  proof (cases Ov)
    case Nil
    with f show ?thesis by (simp add: scan_def candidate_def emptyEntry_def)
  next
    case (Cons e es)
    then have "nexts T n m' = (map toResult (drop (Suc 0) Ov), AtNull)"
      using assms(2,3,5) tb by (intro nexts_cleared_plain tc) simp_all
    with f Cons show ?thesis
      by (simp add: scan_def candidate_def toResult_def)
  qed
qed

text \<open>
  Where the scan is the merge of the two tables. On a cursor for a table without
  auto-dupsort, over well-formed base and overlay tables, that stores no base candidate if the table is cleared (as a newly
  created cursor does), and where the base holds no empty key if the overlay holds no
  entry at all: \<open>First\<close> followed by \<open>Next\<close> until nil (at most as many \<open>Next\<close>
  calls as the two tables have entries) ends at nil and returns, as a multiset, the
  overlay entries together with the base entries that are neither tombstoned nor
  shadowed by the overlay (an overlay entry with the same key; on a dup-sort table the
  same key and value); on a cleared table it returns exactly the overlay entries.
\<close>

theorem scan_merges:
  assumes "wellFormed T tbl B" and "wellFormed T tbl Ov"
    and "\<not> autoDupsortTable T tbl"
    and "cursorOver B Ov mu tbl m"
    and "Ov = [] \<longrightarrow> (\<forall>e\<in>set B. fst e \<noteq> [])"
    and "length B + length Ov \<le> n"
  shows "\<exists>R. scan T n m = (map toResult R, AtNull)
       \<and> mset R =
           (if isTableCleared mu tbl then mset Ov
            else mset Ov + mset (filter (\<lambda>e. \<not> tombstoned mu tbl e
                                       \<and> \<not> shadowed (dupSortTable T tbl) Ov e) B))"
proof (cases "isTableCleared mu tbl")
  case True
  with scan_cleared_plain [OF True assms(2,3,4), of n] assms(6) show ?thesis
    by auto
next
  case False
  let ?del = "tombstoned mu tbl" and ?dup = "dupSortTable T tbl"
  have "mset (mergeFrom ?del ?dup Ov (dropWhile ?del B))
      = mset Ov + mset (filter (\<lambda>e. \<not> ?del e \<and> \<not> shadowed ?dup Ov e) (dropWhile ?del B))"
  proof (rule mergeFrom_mset)
    show "sorted_wrt (before ?dup) Ov"
      using assms(2) by (simp add: wellFormed_before)
    show "sorted_wrt (before ?dup) (dropWhile ?del B)"
      using assms(1) by (simp add: wellFormed_before)
    show "Ov = [] \<longrightarrow> dropWhile ?del B = [] \<or> \<not> collide ?dup [] (dropWhile ?del B)"
    proof (cases "dropWhile ?del B")
      case Nil
      then show ?thesis by simp
    next
      case (Cons x xs)
      then have "x \<in> set (dropWhile ?del B)" by simp
      then have "x \<in> set B" by (rule set_dropWhileD)
      with assms(5) show ?thesis unfolding Cons by (simp add: collide_Nil_nonempty_key)
    qed
    show "dropWhile ?del B \<noteq> [] \<longrightarrow> \<not> ?del (hd (dropWhile ?del B))"
      by (rule not_del_hd_dropWhile)
  qed
  with scan_plain [OF assms(3) False assms(4,6)] False show ?thesis
    by (auto simp: filter_dropWhile_deleted)
qed


theorem scan_merges_witness:
  "wellFormed exampleCfg ''plain'' [([], [1]), ([0x62], [2])]
   \<and> wellFormed exampleCfg ''plain'' [([0x62], [9])]
   \<and> \<not> autoDupsortTable exampleCfg ''plain''
   \<and> cursorOver [([], [1]), ([0x62], [2])] [([0x62], [9])] noMutation ''plain''
        (newCursor [([], [1]), ([0x62], [2])] [([0x62], [9])] noMutation ''plain'')
   \<and> (\<exists>R. scan exampleCfg 3 (newCursor [([], [1]), ([0x62], [2])] [([0x62], [9])] noMutation ''plain'')
            = (map toResult R, AtNull)
          \<and> mset R = mset [([], [1]), ([0x62], [9])])"
proof -
  have a: "wellFormed exampleCfg ''plain'' [([], [1]), ([0x62], [2])]"
    and b: "wellFormed exampleCfg ''plain'' [([0x62], [9])]"
    and c: "\<not> autoDupsortTable exampleCfg ''plain''"
    by (simp_all add: wellFormed_def autoDupsortTable_def exampleCfg_def)
  note o = cursorOver_new [of "[([], [1]), ([0x62], [2])]" "[([0x62], [9])]" noMutation "''plain''"]
  have d: "[([0x62], [9])] = ([]::entry list)
      \<longrightarrow> (\<forall>e\<in>set [([], [1]), ([0x62], [2::byte])]. fst e \<noteq> ([]::byte list))"
    by simp
  from scan_merges [OF a b c o d, of 3] a b c o show ?thesis
    by (simp add: isTableCleared_def noMutation_def tombstoned_def shadowed_def dupSortTable_def
        exampleCfg_def)
qed

section \<open>An empty base key under an empty overlay\<close>

text \<open>
  C1 fails on the code. An exhausted overlay hands the merge step a nil key, and
  \<open>skipIntersection\<close> compares keys with \<open>bytes.Equal\<close>, for which nil equals the
  empty key. So on a table that is not dup-sort and not cleared, with an empty overlay,
  the scan over the base \<open>{([],v)}\<close> steps the base cursor past the entry and returns
  nothing, although the empty key is no tombstone; with an overlay entry under a
  non-empty key the same \<open>First\<close> returns \<open>([],v)\<close> from the base.
\<close>

theorem scan_drops_empty_base_key:
  assumes "\<not> dupSortTable T tbl" and "\<not> isTableCleared mu tbl"
    and "\<not> isEntryDeleted mu tbl (Some [])"
  shows "scan T n (newCursor [([], v)] [] mu tbl) = ([], AtNull)
       \<and> filter (\<lambda>e. \<not> tombstoned mu tbl e) [([], v)] = [([], v)]
       \<and> (k \<noteq> [] \<longrightarrow>
            (\<exists>m'. First T (newCursor [([], v)] [(k, w)] mu tbl)
                    = Inr ((Some [], Some v, None), m') \<and> isPrevFromDb m'))"
proof -
  from assms(1) have plain: "Flags (fst (lookupCfg T tbl)) AND DupSort = 0"
    by (auto simp: dupSortTable_def lookupCfg_def zeroCfg_def split: option.splits)
  have skip: "skipIntersection T m None None (Some []) (Some v) Normal = getNextOnDb T m Normal"
    if "table m = tbl" for m
    using plain that by (simp add: skipIntersection_def bytes_Equal_def bytes_of_def split_beta)
  define m2 where "m2 = (newCursor [([], v)] [] mu tbl)
      \<lparr>memCursor := \<lparr>entries = [], pos = Some 0, failure = None\<rparr>,
       cursor := \<lparr>entries = [([], v)], pos = Some 0, failure = None\<rparr>\<rparr>"
  have g: "getNextOnDb T m2 Normal
      = Inr ((None, None, None), m2\<lparr>cursor := \<lparr>entries = [([], v)], pos = Some 1, failure = None\<rparr>\<rparr>)"
    by (simp add: getNextOnDb_def getNextOnDb_loop.simps stepOnDb_def c_Next_def goto_def
        entry_at_def m2_def newCursor_def)
  have "First T (newCursor [([], v)] [] mu tbl)
      = goForward T m2 None None (Some []) (Some v) Normal"
    using assms(2,3)
    by (simp add: First_def c_First_def goto_def entry_at_def newCursor_def m2_def)
  also have "\<dots> = Inr ((None, None, None),
      m2\<lparr>cursor := \<lparr>entries = [([], v)], pos = Some 1, failure = None\<rparr>,
         currentDbEntry := emptyEntry, currentMemEntry := emptyEntry, isPrevFromDb := False\<rparr>)"
    using skip [of m2] g
    by (simp add: goForward_def bytes_Equal_def bytes_of_def Let_def m2_def newCursor_def
        emptyEntry_def)
  finally have "scan T n (newCursor [([], v)] [] mu tbl) = ([], AtNull)"
    by (simp add: scan_def)
  moreover from assms(3) have "filter (\<lambda>e. \<not> tombstoned mu tbl e) [([], v)] = [([], v)]"
    by (simp add: tombstoned_def isEntryDeleted_def bytes_of_def)
  moreover have "\<exists>m'. First T (newCursor [([], v)] [(k, w)] mu tbl)
                    = Inr ((Some [], Some v, None), m') \<and> isPrevFromDb m'"
    if "k \<noteq> []"
    using that assms(2,3)
    by (simp add: First_def c_First_def goto_def entry_at_def newCursor_def goForward_def
        skipIntersection_def bytes_Equal_def bytes_Compare_def bytes_of_def Let_def split_beta)
  ultimately show ?thesis by blast
qed

theorem scan_drops_empty_base_key_witness:
  "\<not> dupSortTable exampleCfg ''plain'' \<and> \<not> isTableCleared noMutation ''plain''
   \<and> \<not> isEntryDeleted noMutation ''plain'' (Some [])
   \<and> scan exampleCfg 1 (newCursor [([], [1])] [] noMutation ''plain'') = ([], AtNull)
   \<and> filter (\<lambda>e. \<not> tombstoned noMutation ''plain'' e) [([], [1])] = [([], [1])]
   \<and> (\<exists>m'. First exampleCfg (newCursor [([], [1])] [([0x62], [9])] noMutation ''plain'')
             = Inr ((Some [], Some [1], None), m'))"
proof -
  have a: "\<not> dupSortTable exampleCfg ''plain''"
    and b: "\<not> isTableCleared noMutation ''plain''"
    and c: "\<not> isEntryDeleted noMutation ''plain'' (Some [])"
    by (simp_all add: dupSortTable_def exampleCfg_def isTableCleared_def isEntryDeleted_def
        noMutation_def)
  from scan_drops_empty_base_key [OF a b c, of 1 "[1]" "[0x62]" "[9]"] a b c
  show ?thesis by auto
qed

end
